theory Spec2Isabelle
  imports Complex_Main "HOL-Library.Word" "HOL-Library.Log_Nat"
begin

unbundle bit_operations_syntax

chapter \<open>The embedding of the test harness\<close>

section \<open>API bridge types\<close>

text \<open>
  The enumerations and the benchmark descriptor of the API bridge, as far as the
  harness code below reads them. A \<open>std::uint64_t\<close> is a \<open>64 word\<close>, the
  \<open>std::uint32_t\<close> cipher mask a \<open>32 word\<close>. The array
  \<open>cat_params.offline.data_count\<close> is the list \<open>offline_data_count\<close>; its
  length stands for \<open>HEBENCH_MAX_OP_PARAMS\<close>.
\<close>

datatype Workload = MatrixMultiply | EltwiseMultiply | EltwiseAdd | DotProduct
  | LogisticRegression | LogisticRegression_PolyD3 | LogisticRegression_PolyD5
  | LogisticRegression_PolyD7

record BenchmarkDescriptor =
  workload :: Workload
  cipher_param_mask :: "32 word"
  offline_data_count :: "64 word list"

section \<open>Sample sizes of an offline benchmark\<close>

text \<open>
  \<open>PartialBenchmarkDescription::computeSampleSizes\<close> (hebench_ibenchmark.cpp).
  The loop runs \<open>param_i\<close> from 0 to \<open>param_count - 1\<close>; the state is the
  caller's array \<open>sample_sizes\<close> and the running product, a \<open>std::uint64_t\<close>
  that wraps around. A read or a write outside an array is undefined behaviour in
  the source and \<open>None\<close> here.
\<close>

fun computeSampleSizes_loop ::
  "64 word \<Rightarrow> 64 word list \<Rightarrow> nat \<Rightarrow> nat \<Rightarrow> 64 word list \<times> 64 word
     \<Rightarrow> (64 word list \<times> 64 word) option" where
  "computeSampleSizes_loop default_sample_size data_count param_i 0 st = Some st"
| "computeSampleSizes_loop default_sample_size data_count param_i (Suc n)
       (sample_sizes, result_batch_size) =
     (if param_i < length data_count \<and> param_i < length sample_sizes then
        let v = (if data_count ! param_i = 0 then default_sample_size
                 else data_count ! param_i)
        in computeSampleSizes_loop default_sample_size data_count (Suc param_i) n
             (sample_sizes[param_i := v], result_batch_size * v)
      else None)"

definition computeSampleSizes ::
  "64 word list \<Rightarrow> nat \<Rightarrow> 64 word \<Rightarrow> BenchmarkDescriptor
     \<Rightarrow> (64 word list \<times> 64 word) option" where
  "computeSampleSizes sample_sizes param_count default_sample_size bench_desc =
     computeSampleSizes_loop default_sample_size (offline_data_count bench_desc) 0 param_count
       (sample_sizes, 1)"

text \<open>The sample count of parameter \<open>i\<close>, for stating the loop invariant.\<close>

definition sample_count :: "64 word \<Rightarrow> 64 word list \<Rightarrow> nat \<Rightarrow> 64 word" where
  "sample_count default_sample_size data_count i =
     (if data_count ! i = 0 then default_sample_size else data_count ! i)"

section \<open>The cipher-mask segment of the canonical path\<close>

text \<open>
  \<open>PartialBenchmarkDescription::getCipherParamPositions\<close>: the loop over the 32
  positions of the bitset inserts every position whose bit is set.
\<close>

definition getCipherParamPositions :: "32 word \<Rightarrow> nat set" where
  "getCipherParamPositions msk =
     set (filter (\<lambda>i. bit msk i) [0..<32])"

text \<open>
  The cipher/plain segment that \<open>PartialBenchmarkDescription::describe\<close> appends to
  the path (lines 213 to 227).
\<close>

definition cipher_mask_segment :: "32 word \<Rightarrow> string" where
  "cipher_mask_segment msk =
     (let cipher_param_pos = getCipherParamPositions msk in
      if cipher_param_pos = {} then ''all_plain''
      else if card cipher_param_pos \<ge> 32 then ''all_cipher''
      else map (\<lambda>i. if i \<in> cipher_param_pos then CHR ''c'' else CHR ''p'')
               [0..<Suc (Max cipher_param_pos)])"

text \<open>The highest set bit of a mask, for stating what the segment is.\<close>

definition highest_set_bit :: "32 word \<Rightarrow> nat" where
  "highest_set_bit m = Max {i. bit m i}"

section \<open>The directory-name sanitizer\<close>

text \<open>
  \<open>hebench::Utilities::convertToDirectoryName\<close> (hebench_utilities.cpp). A
  \<open>std::string\<close> is a \<open>string\<close>, a list of 8-bit characters.
  \<open>std::isalnum\<close> and \<open>std::tolower\<close> are those of the "C" locale, the
  locale of a program that never calls \<open>setlocale\<close>: the digits and the
  unaccented Latin letters of ASCII.
\<close>

definition isalnum :: "char \<Rightarrow> bool" where
  "isalnum c = (let n = (of_char c :: nat) in
     (48 \<le> n \<and> n \<le> 57) \<or> (65 \<le> n \<and> n \<le> 90) \<or> (97 \<le> n \<and> n \<le> 122))"

definition tolower :: "char \<Rightarrow> char" where
  "tolower c = (let n = (of_char c :: nat) in
     if 65 \<le> n \<and> n \<le> 90 then char_of (n + 32) else c)"

definition to_directory_char :: "bool \<Rightarrow> char \<Rightarrow> char" where
  "to_directory_char to_lowercase c =
     (if isalnum c \<or> c = CHR ''.'' then (if to_lowercase then tolower c else c)
      else CHR ''_'')"

text \<open>
  The members of \<open>std::string\<close> the function calls, by their library
  specification; \<open>std::string::npos\<close> is \<open>None\<close>.
  \<open>find_first_of s ch pos\<close> is the first index from \<open>pos\<close> on that
  holds \<open>ch\<close>, \<open>find_first_not_of\<close> the first that does not,
  \<open>find_last_not_of\<close> the last index that does not hold \<open>ch\<close>;
  \<open>substr s pos count\<close> is \<open>s.substr(pos)\<close> for the count \<open>None\<close>
  and \<open>s.substr(pos, n)\<close> for \<open>Some n\<close>.
\<close>

definition find_first_of :: "string \<Rightarrow> char \<Rightarrow> nat \<Rightarrow> nat option" where
  "find_first_of s ch pos =
     (let n = length (takeWhile (\<lambda>c. c \<noteq> ch) (drop pos s))
      in if pos + n < length s then Some (pos + n) else None)"

definition find_first_not_of :: "string \<Rightarrow> char \<Rightarrow> nat \<Rightarrow> nat option" where
  "find_first_not_of s ch pos =
     (let n = length (takeWhile (\<lambda>c. c = ch) (drop pos s))
      in if pos + n < length s then Some (pos + n) else None)"

definition find_last_not_of :: "string \<Rightarrow> char \<Rightarrow> nat option" where
  "find_last_not_of s ch =
     (let n = length (takeWhile (\<lambda>c. c = ch) (rev s))
      in if n < length s then Some (length s - n - 1) else None)"

definition substr :: "string \<Rightarrow> nat \<Rightarrow> nat option \<Rightarrow> string" where
  "substr s pos count = (case count of None \<Rightarrow> drop pos s | Some n \<Rightarrow> take n (drop pos s))"

lemma find_first_of_ge: "find_first_of s ch pos = Some i \<Longrightarrow> pos \<le> i"
  by (auto simp: find_first_of_def Let_def split: if_splits)

lemma find_first_not_of_ge: "find_first_not_of s ch pos = Some i \<Longrightarrow> pos \<le> i"
  by (auto simp: find_first_not_of_def Let_def split: if_splits)

text \<open>
  The loop that removes contiguous underscore repetitions (lines 32 to 46), with
  the state \<open>pos\<close> and the stream \<open>ss_retval\<close>. Each iteration moves
  \<open>pos\<close> forward, which is the termination argument.
\<close>

function collapse_loop :: "string \<Rightarrow> nat \<Rightarrow> string \<Rightarrow> string" where
  "collapse_loop s_tmp pos ss_retval =
     (if pos < length s_tmp then
        (case find_first_of s_tmp CHR ''_'' pos of
           None \<Rightarrow> ss_retval @ substr s_tmp pos None
         | Some i \<Rightarrow>
             (case find_first_not_of s_tmp CHR ''_'' (if i < length s_tmp then i + 1 else i) of
                None \<Rightarrow> ss_retval @ substr s_tmp pos
                          (Some ((if i < length s_tmp then i + 1 else i) - pos))
              | Some j \<Rightarrow> collapse_loop s_tmp j
                          (ss_retval @ substr s_tmp pos
                             (Some ((if i < length s_tmp then i + 1 else i) - pos)))))
      else ss_retval)"
  by pat_completeness auto
termination
proof (relation "measure (\<lambda>(s_tmp, pos, ss_retval). length s_tmp - pos)")
  show "wf (measure (\<lambda>(s_tmp, pos, ss_retval). length s_tmp - pos))" by simp
next
  fix s_tmp :: string and pos :: nat and ss_retval :: string and i j :: nat
  assume p: "pos < length s_tmp"
    and i: "find_first_of s_tmp CHR ''_'' pos = Some i"
    and j: "find_first_not_of s_tmp CHR ''_'' (if i < length s_tmp then i + 1 else i) = Some j"
  have "pos \<le> i" using i by (rule find_first_of_ge)
  moreover have "i < length s_tmp" using i by (auto simp: find_first_of_def Let_def split: if_splits)
  moreover have "(if i < length s_tmp then i + 1 else i) \<le> j" using j by (rule find_first_not_of_ge)
  ultimately have "pos < j" by simp
  with p show "((s_tmp, j, ss_retval @ substr s_tmp pos
          (Some ((if i < length s_tmp then i + 1 else i) - pos))), (s_tmp, pos, ss_retval))
        \<in> measure (\<lambda>(s_tmp, pos, ss_retval). length s_tmp - pos)"
    by simp
qed

text \<open>
  The function: the transform of every character, the two \<open>erase\<close> calls
  (\<open>erase(0, npos)\<close> empties the string, and \<open>npos + 1\<close> wraps to 0), then
  the loop.
\<close>

definition convertToDirectoryName :: "string \<Rightarrow> bool \<Rightarrow> string" where
  "convertToDirectoryName s to_lowercase =
     (let s_tmp = map (to_directory_char to_lowercase) s;
          s_tmp = (case find_first_not_of s_tmp CHR ''_'' 0 of
                     None \<Rightarrow> []
                   | Some n \<Rightarrow> drop n s_tmp);
          s_tmp = take (case find_last_not_of s_tmp CHR ''_'' of
                          None \<Rightarrow> 0
                        | Some n \<Rightarrow> n + 1) s_tmp
      in collapse_loop s_tmp 0 [])"

text \<open>
  The sanitizer as the specification words it: every character that is not
  alphanumeric or a dot becomes an underscore, leading and trailing underscores
  are removed, and a run of underscores collapses to one.
\<close>

fun squeeze :: "string \<Rightarrow> string" where
  "squeeze [] = []"
| "squeeze [c] = [c]"
| "squeeze (c # d # cs) =
     (if c = CHR ''_'' \<and> d = CHR ''_'' then squeeze (d # cs) else c # squeeze (d # cs))"

definition trim :: "string \<Rightarrow> string" where
  "trim s = rev (dropWhile (\<lambda>c. c = CHR ''_'') (rev (dropWhile (\<lambda>c. c = CHR ''_'') s)))"

definition sanitize_spec :: "bool \<Rightarrow> string \<Rightarrow> string" where
  "sanitize_spec to_lowercase s = squeeze (trim (map (to_directory_char to_lowercase) s))"


definition keeps :: "char \<Rightarrow> bool" where
  "keeps c = (isalnum c \<or> c = CHR ''.'')"


fun no_double_underscore :: "string \<Rightarrow> bool" where
  "no_double_underscore (c # d # cs) =
     (\<not> (c = CHR ''_'' \<and> d = CHR ''_'') \<and> no_double_underscore (d # cs))"
| "no_double_underscore cs = True"


section \<open>Workload parameters and the workload matchers\<close>

text \<open>
  A \<open>WorkloadParam\<close> of the API bridge is a tag and a union of three 64-bit
  views; the matchers read the tag and the unsigned view \<open>u_param\<close>. The
  enumerators of \<open>WorkloadParamType\<close> carry the prefix \<open>WP_\<close> to keep
  them apart from those of \<open>DataType\<close>. The exceptions the matchers throw
  and catch are the values of \<open>error\<close>.
\<close>

datatype WorkloadParamType = WP_Int64 | WP_UInt64 | WP_Float64

record WorkloadParam =
  data_type :: WorkloadParamType
  u_param :: "64 word"

datatype error = invalid_argument | out_of_range

text \<open>
  \<open>operator<<\<close> of a stream on a \<open>std::uint64_t\<close>: the decimal digits.
\<close>

fun to_decimal :: "nat \<Rightarrow> string" where
  "to_decimal n =
     (if n < 10 then [char_of (48 + n)]
      else to_decimal (n div 10) @ [char_of (48 + n mod 10)])"

declare to_decimal.simps [simp del]

definition show_uint64 :: "64 word \<Rightarrow> string" where
  "show_uint64 w = to_decimal (unat w)"

text \<open>
  The size check and the validation loop that open \<open>fetchVectorSize\<close> of the
  dot product (hebench_dotproduct.cpp, lines 34 to 57) and of the logistic
  regression and \<open>fetchMatrixSizes\<close> of the matrix multiplication: the three
  copies differ in the array \<open>WorkloadParameterType\<close> only, whose length is
  \<open>WorkloadParameterCount\<close>. The loop reads \<open>w_params[i]\<close> below the
  length that the size check has established.
\<close>

fun validate_loop ::
  "WorkloadParamType list \<Rightarrow> WorkloadParam list \<Rightarrow> nat \<Rightarrow> nat \<Rightarrow> error + unit" where
  "validate_loop WorkloadParameterType w_params i 0 = Inr ()"
| "validate_loop WorkloadParameterType w_params i (Suc n) =
     (if data_type (w_params ! i) \<noteq> WorkloadParameterType ! i then Inl invalid_argument
      else if u_param (w_params ! i) \<le> 0 then Inl invalid_argument
      else validate_loop WorkloadParameterType w_params (Suc i) n)"

definition validate_workload_params ::
  "WorkloadParamType list \<Rightarrow> WorkloadParam list \<Rightarrow> error + unit" where
  "validate_workload_params WorkloadParameterType w_params =
     (if length w_params < length WorkloadParameterType then Inl invalid_argument
      else validate_loop WorkloadParameterType w_params 0 (length WorkloadParameterType))"

text \<open>\<open>std::vector::at\<close>, which checks the index.\<close>

definition vector_at :: "'a list \<Rightarrow> nat \<Rightarrow> error + 'a" where
  "vector_at xs i = (if i < length xs then Inr (xs ! i) else Inl out_of_range)"

text \<open>
  The matcher of the dot product. \<open>BaseWorkloadName\<close> is a constant of a
  header that is not among the sources and is a parameter here. The
  \<open>catch (...)\<close> turns every exception into the empty name.
\<close>

definition DotProduct_WorkloadParameterType :: "WorkloadParamType list" where
  "DotProduct_WorkloadParameterType = [WP_UInt64]"

definition DotProduct_fetchVectorSize :: "WorkloadParam list \<Rightarrow> error + 64 word" where
  "DotProduct_fetchVectorSize w_params =
     (case validate_workload_params DotProduct_WorkloadParameterType w_params of
        Inl e \<Rightarrow> Inl e
      | Inr _ \<Rightarrow> (case vector_at w_params 0 of Inl e \<Rightarrow> Inl e | Inr p \<Rightarrow> Inr (u_param p)))"

definition DotProduct_matchBenchmarkDescriptor ::
  "string \<Rightarrow> BenchmarkDescriptor \<Rightarrow> WorkloadParam list \<Rightarrow> string" where
  "DotProduct_matchBenchmarkDescriptor BaseWorkloadName bench_desc w_params =
     (if workload bench_desc = DotProduct then
        (case DotProduct_fetchVectorSize w_params of
           Inr vector_size \<Rightarrow> BaseWorkloadName @ '' '' @ show_uint64 vector_size
         | Inl _ \<Rightarrow> [])
      else [])"

text \<open>The matcher of the logistic regression, for its four workload enumerators.\<close>

definition LogisticRegression_WorkloadParameterType :: "WorkloadParamType list" where
  "LogisticRegression_WorkloadParameterType = [WP_UInt64]"

definition LogisticRegression_fetchVectorSize :: "WorkloadParam list \<Rightarrow> error + 64 word" where
  "LogisticRegression_fetchVectorSize w_params =
     (case validate_workload_params LogisticRegression_WorkloadParameterType w_params of
        Inl e \<Rightarrow> Inl e
      | Inr _ \<Rightarrow> (case vector_at w_params 0 of Inl e \<Rightarrow> Inl e | Inr p \<Rightarrow> Inr (u_param p)))"

definition LogisticRegression_matchBenchmarkDescriptor ::
  "string \<Rightarrow> BenchmarkDescriptor \<Rightarrow> WorkloadParam list \<Rightarrow> string" where
  "LogisticRegression_matchBenchmarkDescriptor BaseWorkloadName bench_desc w_params =
     (if workload bench_desc = LogisticRegression
         \<or> workload bench_desc = LogisticRegression_PolyD3
         \<or> workload bench_desc = LogisticRegression_PolyD5
         \<or> workload bench_desc = LogisticRegression_PolyD7 then
        (case LogisticRegression_fetchVectorSize w_params of
           Inr vector_size \<Rightarrow>
             BaseWorkloadName @ '' '' @
             (case workload bench_desc of
                LogisticRegression_PolyD3 \<Rightarrow> ''PolyD3 ''
              | LogisticRegression_PolyD5 \<Rightarrow> ''PolyD5 ''
              | LogisticRegression_PolyD7 \<Rightarrow> ''PolyD7 ''
              | _ \<Rightarrow> []) @
             show_uint64 vector_size @ '' features''
         | Inl _ \<Rightarrow> [])
      else [])"

text \<open>
  The matcher of the matrix multiplication; \<open>mat_dims\<close> is the array of the
  two pairs (rows, columns).
\<close>

definition MatrixMultiply_WorkloadParameterType :: "WorkloadParamType list" where
  "MatrixMultiply_WorkloadParameterType = [WP_UInt64, WP_UInt64, WP_UInt64]"

definition MatrixMultiply_fetchMatrixSizes ::
  "WorkloadParam list \<Rightarrow> error + ((64 word \<times> 64 word) \<times> (64 word \<times> 64 word))" where
  "MatrixMultiply_fetchMatrixSizes w_params =
     (case validate_workload_params MatrixMultiply_WorkloadParameterType w_params of
        Inl e \<Rightarrow> Inl e
      | Inr _ \<Rightarrow>
          (case (vector_at w_params 0, vector_at w_params 1, vector_at w_params 2) of
             (Inr p0, Inr p1, Inr p2) \<Rightarrow>
                Inr ((u_param p0, u_param p1), (u_param p1, u_param p2))
           | _ \<Rightarrow> Inl out_of_range))"

definition MatrixMultiply_matchBenchmarkDescriptor ::
  "string \<Rightarrow> BenchmarkDescriptor \<Rightarrow> WorkloadParam list \<Rightarrow> string" where
  "MatrixMultiply_matchBenchmarkDescriptor BaseWorkloadName bench_desc w_params =
     (if workload bench_desc = MatrixMultiply then
        (case MatrixMultiply_fetchMatrixSizes w_params of
           Inr mat_dims \<Rightarrow>
             BaseWorkloadName @ '' ('' @
             show_uint64 (fst (fst mat_dims)) @ ''x'' @ show_uint64 (snd (fst mat_dims)) @
             '') x ('' @
             show_uint64 (fst (snd mat_dims)) @ ''x'' @ show_uint64 (snd (snd mat_dims)) @ '')''
         | Inl _ \<Rightarrow> [])
      else [])"

text \<open>A required parameter as the matchers want it: tagged unsigned, and not zero.\<close>

definition well_formed_param :: "WorkloadParam \<Rightarrow> bool" where
  "well_formed_param p = (data_type p = WP_UInt64 \<and> u_param p \<noteq> 0)"

section \<open>Floating-point and integer arithmetic of the data types\<close>

text \<open>
  The four data types of a benchmark. The integer types are the two's-complement
  words \<open>32 word\<close> and \<open>64 word\<close>, whose \<open>+\<close> and \<open>*\<close> wrap around, which is
  what the hardware does where C++ leaves signed overflow undefined.
\<close>

datatype DataType = Int32 | Int64 | Float32 | Float64

text \<open>
  A finite \<open>float\<close> or \<open>double\<close> is modelled by the rational number it denotes,
  and an arithmetic operation by the exact operation followed by the rounding of
  IEEE 754 to the format, to nearest with ties to even: \<open>fround p emin\<close> rounds to
  the binary format with \<open>p\<close> significant bits and least normal exponent
  \<open>emin\<close> (subnormal numbers included), \<open>binary32\<close> being \<open>fround 24 (-126)\<close>
  and \<open>binary64\<close> \<open>fround 53 (-1022)\<close>. The exponent of \<open>fround\<close> has no
  upper bound: the operations \<open>f32_add\<close> to \<open>f64_div\<close> below are those of
  the finite numbers, for computations that stay in the finite range. The overflow
  to an infinity and NaN are added by the type \<open>fp_value\<close> of the dot product.
  Outside the model: the sign of zero, and compilation that fuses a multiplication
  and an addition into one rounding.
\<close>

definition pow2 :: "int \<Rightarrow> rat" where
  "pow2 e = (if 0 \<le> e then 2 ^ nat e else 1 / 2 ^ nat (- e))"

text \<open>The exponent of a nonzero rational: the \<open>k\<close> with \<open>2^k \<le> |x| < 2^(k+1)\<close>.\<close>

definition floor_log2 :: "rat \<Rightarrow> int" where
  "floor_log2 x =
     (let (a, b) = quotient_of \<bar>x\<bar>;
          k = bitlen a - bitlen b
      in if pow2 k \<le> \<bar>x\<bar> then k else k - 1)"

definition round_half_even :: "rat \<Rightarrow> int" where
  "round_half_even q =
     (let f = \<lfloor>q\<rfloor>; d = q - of_int f
      in if d < 1 / 2 then f
         else if 1 / 2 < d then f + 1
         else if even f then f else f + 1)"

definition fround :: "nat \<Rightarrow> int \<Rightarrow> rat \<Rightarrow> rat" where
  "fround p emin x =
     (if x = 0 then 0
      else let e = max (floor_log2 x) emin - (int p - 1)
           in of_int (round_half_even (x / pow2 e)) * pow2 e)"

definition f32_round :: "rat \<Rightarrow> rat" where
  "f32_round x = fround 24 (- 126) x"

definition f64_round :: "rat \<Rightarrow> rat" where
  "f64_round x = fround 53 (- 1022) x"

definition f32_add :: "rat \<Rightarrow> rat \<Rightarrow> rat" where "f32_add x y = f32_round (x + y)"
definition f32_mul :: "rat \<Rightarrow> rat \<Rightarrow> rat" where "f32_mul x y = f32_round (x * y)"
definition f64_add :: "rat \<Rightarrow> rat \<Rightarrow> rat" where "f64_add x y = f64_round (x + y)"
definition f64_mul :: "rat \<Rightarrow> rat \<Rightarrow> rat" where "f64_mul x y = f64_round (x * y)"
definition f64_div :: "rat \<Rightarrow> rat \<Rightarrow> rat" where "f64_div x y = f64_round (x / y)"

text \<open>
  \<open>std::inner_product(first1, last1, first2, init)\<close>: the accumulator starts at
  \<open>init\<close> and takes, from left to right, \<open>acc + x * y\<close> in the arithmetic of the
  element type, which is given by its addition and multiplication.
\<close>

definition inner_product ::
  "('a \<Rightarrow> 'a \<Rightarrow> 'a) \<Rightarrow> ('a \<Rightarrow> 'a \<Rightarrow> 'a) \<Rightarrow> 'a list \<Rightarrow> 'a list \<Rightarrow> 'a \<Rightarrow> 'a" where
  "inner_product op_add op_mul a b init =
     foldl (\<lambda>acc (x, y). op_add acc (op_mul x y)) init (zip a b)"

section \<open>The ground truth of the logistic regression\<close>

text \<open>
  \<open>DataGeneratorHelper::evaluatePolynomial\<close>: Horner's rule from the last
  coefficient down. Reading the last element of an empty container is undefined
  behaviour, \<open>None\<close> here.
\<close>

definition evaluatePolynomial ::
  "('a \<Rightarrow> 'a \<Rightarrow> 'a) \<Rightarrow> ('a \<Rightarrow> 'a \<Rightarrow> 'a) \<Rightarrow> 'a \<Rightarrow> 'a list \<Rightarrow> 'a option" where
  "evaluatePolynomial op_add op_mul x coeff =
     (case rev coeff of
        [] \<Rightarrow> None
      | c # cs \<Rightarrow> Some (foldl (\<lambda>retval c. op_add (op_mul retval x) c) c cs))"

text \<open>
  The coefficient arrays of \<open>sigmoid<3>\<close>, \<open>sigmoid<5>\<close> and \<open>sigmoid<7>\<close>:
  each decimal literal of the source is the \<open>double\<close> nearest to it.
\<close>

definition poly3 :: "rat list" where
  "poly3 = map f64_round [5 / 10, 15012 / 100000, 0, - (15930078125 / 10 ^ 13)]"

definition poly5 :: "rat list" where
  "poly5 = map f64_round [5 / 10, 19131 / 100000, 0, - (45963 / 10 ^ 7), 0,
                          412332000732421875 / 10 ^ 22]"

definition poly7 :: "rat list" where
  "poly7 = map f64_round [5 / 10, 21687 / 100000, 0, - (819154296875 / 10 ^ 14), 0,
                          1658331298828125 / 10 ^ 19, 0,
                          - (119561672210693359375 / 10 ^ 26)]"

text \<open>
  The four sigmoids, all on \<open>double\<close>. \<open>std::exp\<close> of the C library is the
  parameter \<open>std_exp\<close>. The arrays are not empty, so \<open>evaluatePolynomial\<close>
  returns a value on them.
\<close>

definition sigmoid0 :: "(rat \<Rightarrow> rat) \<Rightarrow> rat \<Rightarrow> rat" where
  "sigmoid0 std_exp x = f64_div 1 (f64_add 1 (std_exp (- x)))"

definition sigmoid3 :: "rat \<Rightarrow> rat" where
  "sigmoid3 x = the (evaluatePolynomial f64_add f64_mul x poly3)"

definition sigmoid5 :: "rat \<Rightarrow> rat" where
  "sigmoid5 x = the (evaluatePolynomial f64_add f64_mul x poly5)"

definition sigmoid7 :: "rat \<Rightarrow> rat" where
  "sigmoid7 x = the (evaluatePolynomial f64_add f64_mul x poly7)"

datatype PolynomialDegree = PD_None | PD3 | PD5 | PD7

text \<open>
  The template \<open>logisticRegressionInference<T>\<close> (lines 188 to 213). The
  arithmetic of \<open>T\<close> is given by its rounding \<open>round_T\<close>, and
  \<open>static_cast<T>\<close> of a \<open>double\<close> by \<open>cast_T\<close>; \<open>static_cast<double>\<close> of a
  \<open>T\<close> keeps the value. \<open>std::inner_product\<close> reads \<open>feature_count\<close> elements
  of both buffers; a shorter buffer is undefined behaviour, \<open>None\<close> here.
\<close>

definition logisticRegressionInference_T ::
  "(rat \<Rightarrow> rat) \<Rightarrow> (rat \<Rightarrow> rat) \<Rightarrow> (rat \<Rightarrow> rat) \<Rightarrow> PolynomialDegree
     \<Rightarrow> rat list \<Rightarrow> rat \<Rightarrow> rat list \<Rightarrow> nat \<Rightarrow> rat option" where
  "logisticRegressionInference_T std_exp round_T cast_T poly_deg p_w b p_input feature_count =
     (if feature_count \<le> length p_w \<and> feature_count \<le> length p_input then
        let linear_regression =
              round_T (inner_product (\<lambda>x y. round_T (x + y)) (\<lambda>x y. round_T (x * y))
                         (take feature_count p_w) (take feature_count p_input) 0 + b)
        in Some (case poly_deg of
                   PD3 \<Rightarrow> cast_T (sigmoid3 linear_regression)
                 | PD5 \<Rightarrow> cast_T (sigmoid5 linear_regression)
                 | PD7 \<Rightarrow> cast_T (sigmoid7 linear_regression)
                 | _ \<Rightarrow> cast_T (sigmoid0 std_exp linear_regression))
      else None)"

text \<open>
  The dispatch on the data type (lines 215 to 249): \<open>float\<close> and \<open>double\<close> are
  supported, every other type throws \<open>std::invalid_argument\<close>. The buffers of
  the model are never null.
\<close>

definition logisticRegressionInference ::
  "(rat \<Rightarrow> rat) \<Rightarrow> DataType \<Rightarrow> PolynomialDegree
     \<Rightarrow> rat list \<Rightarrow> rat \<Rightarrow> rat list \<Rightarrow> nat \<Rightarrow> error + rat option" where
  "logisticRegressionInference std_exp dtype poly_deg p_w p_bias p_input feature_count =
     (case dtype of
        Float32 \<Rightarrow> Inr (logisticRegressionInference_T std_exp f32_round f32_round poly_deg
                         p_w p_bias p_input feature_count)
      | Float64 \<Rightarrow> Inr (logisticRegressionInference_T std_exp f64_round (\<lambda>y. y) poly_deg
                         p_w p_bias p_input feature_count)
      | _ \<Rightarrow> Inl invalid_argument)"

text \<open>
  A stand-in for \<open>std::exp\<close> in the examples of the polynomial variants, which
  never call it.
\<close>

definition exp_unused :: "rat \<Rightarrow> rat" where
  "exp_unused x = 0"

text \<open>
  The ground truth as the specification words it: \<open>sigma (w . x + b)\<close> with the
  whole computation in \<open>double\<close> and one cast to the data type at the end.
\<close>

definition sigma :: "(rat \<Rightarrow> rat) \<Rightarrow> PolynomialDegree \<Rightarrow> rat \<Rightarrow> rat" where
  "sigma std_exp poly_deg z =
     (case poly_deg of
        PD_None \<Rightarrow> sigmoid0 std_exp z
      | PD3 \<Rightarrow> sigmoid3 z
      | PD5 \<Rightarrow> sigmoid5 z
      | PD7 \<Rightarrow> sigmoid7 z)"

definition cast_to :: "DataType \<Rightarrow> rat \<Rightarrow> rat" where
  "cast_to dtype y = (if dtype = Float32 then f32_round y else y)"

definition logreg_in_f64 ::
  "(rat \<Rightarrow> rat) \<Rightarrow> DataType \<Rightarrow> PolynomialDegree \<Rightarrow> rat list \<Rightarrow> rat \<Rightarrow> rat list \<Rightarrow> rat" where
  "logreg_in_f64 std_exp dtype poly_deg w b x =
     cast_to dtype (sigma std_exp poly_deg (f64_add (inner_product f64_add f64_mul w x 0) b))"

section \<open>The ground truth of the dot product\<close>

text \<open>
  The template \<open>vectorDotProduct<T>\<close> (hebench_dotproduct.cpp, lines 108 to
  113), \<open>T()\<close> being the parameter \<open>zero\<close>, and its four instances, which the
  dispatch on the data type selects. A buffer with fewer than \<open>elem_count\<close>
  elements is undefined behaviour, \<open>None\<close> here.
\<close>

definition vectorDotProduct_T ::
  "('a \<Rightarrow> 'a \<Rightarrow> 'a) \<Rightarrow> ('a \<Rightarrow> 'a \<Rightarrow> 'a) \<Rightarrow> 'a \<Rightarrow> 'a list \<Rightarrow> 'a list \<Rightarrow> nat \<Rightarrow> 'a option" where
  "vectorDotProduct_T op_add op_mul zero a b elem_count =
     (if elem_count \<le> length a \<and> elem_count \<le> length b then
        Some (inner_product op_add op_mul (take elem_count a) (take elem_count b) zero)
      else None)"

definition vectorDotProduct_int32 :: "32 word list \<Rightarrow> 32 word list \<Rightarrow> nat \<Rightarrow> 32 word option" where
  "vectorDotProduct_int32 = vectorDotProduct_T (+) (*) 0"

definition vectorDotProduct_int64 :: "64 word list \<Rightarrow> 64 word list \<Rightarrow> nat \<Rightarrow> 64 word option" where
  "vectorDotProduct_int64 = vectorDotProduct_T (+) (*) 0"

text \<open>
  The values of a \<open>float\<close> or a \<open>double\<close> in the dot product: the finite
  numbers, the two infinities and NaN. \<open>FLT_MAX\<close> and \<open>DBL_MAX\<close> are the
  largest finite numbers of the two formats. An operation on finite numbers rounds
  the exact result as if the exponent had no upper bound (\<open>fround\<close>), and a
  rounded result beyond the largest finite number is the infinity of its sign
  (\<open>fp_result\<close>), as IEEE 754 has it for rounding to nearest. An operation on an
  infinity or a NaN follows IEEE 754: NaN propagates, the sum of the two infinities
  and the product of an infinity and zero are NaN, any other product with an
  infinity is the infinity of the product of the signs.
\<close>

datatype fp_value = Finite rat | PlusInfinity | MinusInfinity | NaN

definition FLT_MAX :: rat where
  "FLT_MAX = (2 - 1 / 2 ^ 23) * 2 ^ 127"

definition DBL_MAX :: rat where
  "DBL_MAX = (2 - 1 / 2 ^ 52) * 2 ^ 1023"

definition fp_result :: "rat \<Rightarrow> rat \<Rightarrow> fp_value" where
  "fp_result max_finite r =
     (if max_finite < r then PlusInfinity
      else if r < - max_finite then MinusInfinity
      else Finite r)"

fun fp_add :: "(rat \<Rightarrow> rat) \<Rightarrow> rat \<Rightarrow> fp_value \<Rightarrow> fp_value \<Rightarrow> fp_value" where
  "fp_add rnd max_finite (Finite x) (Finite y) = fp_result max_finite (rnd (x + y))"
| "fp_add rnd max_finite NaN y = NaN"
| "fp_add rnd max_finite x NaN = NaN"
| "fp_add rnd max_finite PlusInfinity MinusInfinity = NaN"
| "fp_add rnd max_finite MinusInfinity PlusInfinity = NaN"
| "fp_add rnd max_finite PlusInfinity y = PlusInfinity"
| "fp_add rnd max_finite MinusInfinity y = MinusInfinity"
| "fp_add rnd max_finite x PlusInfinity = PlusInfinity"
| "fp_add rnd max_finite x MinusInfinity = MinusInfinity"

definition fp_sign_infinity :: "bool \<Rightarrow> fp_value" where
  "fp_sign_infinity negative = (if negative then MinusInfinity else PlusInfinity)"

fun fp_negative :: "fp_value \<Rightarrow> bool" where
  "fp_negative (Finite x) = (x < 0)"
| "fp_negative MinusInfinity = True"
| "fp_negative v = False"

fun fp_mul :: "(rat \<Rightarrow> rat) \<Rightarrow> rat \<Rightarrow> fp_value \<Rightarrow> fp_value \<Rightarrow> fp_value" where
  "fp_mul rnd max_finite (Finite x) (Finite y) = fp_result max_finite (rnd (x * y))"
| "fp_mul rnd max_finite NaN y = NaN"
| "fp_mul rnd max_finite x NaN = NaN"
| "fp_mul rnd max_finite x y =
     (if x = Finite 0 \<or> y = Finite 0 then NaN
      else fp_sign_infinity (fp_negative x \<noteq> fp_negative y))"

definition float_add :: "fp_value \<Rightarrow> fp_value \<Rightarrow> fp_value" where
  "float_add = fp_add f32_round FLT_MAX"

definition float_mul :: "fp_value \<Rightarrow> fp_value \<Rightarrow> fp_value" where
  "float_mul = fp_mul f32_round FLT_MAX"

definition double_add :: "fp_value \<Rightarrow> fp_value \<Rightarrow> fp_value" where
  "double_add = fp_add f64_round DBL_MAX"

definition double_mul :: "fp_value \<Rightarrow> fp_value \<Rightarrow> fp_value" where
  "double_mul = fp_mul f64_round DBL_MAX"

definition vectorDotProduct_float ::
  "fp_value list \<Rightarrow> fp_value list \<Rightarrow> nat \<Rightarrow> fp_value option" where
  "vectorDotProduct_float = vectorDotProduct_T float_add float_mul (Finite 0)"

definition vectorDotProduct_double ::
  "fp_value list \<Rightarrow> fp_value list \<Rightarrow> nat \<Rightarrow> fp_value option" where
  "vectorDotProduct_double = vectorDotProduct_T double_add double_mul (Finite 0)"

section \<open>The data generator of the dot product\<close>

text \<open>
  The loops of the data generator that fill the buffers of one input parameter:
  one call of \<open>generateRandomVectorN\<close> for each sample, in order, each call
  drawing from the global engine. \<open>generateRandomVectorN\<close> belongs to a helper
  that is not among the sources; it is a parameter, applied to the number of
  elements and the state of the engine and returning the filled buffer and the
  new state.
\<close>

fun generate_batch ::
  "(nat \<Rightarrow> 'rng \<Rightarrow> 'a list \<times> 'rng) \<Rightarrow> nat \<Rightarrow> nat \<Rightarrow> 'rng \<Rightarrow> 'a list list \<times> 'rng" where
  "generate_batch generateRandomVectorN vector_size 0 m_rand = ([], m_rand)"
| "generate_batch generateRandomVectorN vector_size (Suc n) m_rand =
     (let (v, m_rand1) = generateRandomVectorN vector_size m_rand;
          (vs, m_rand2) = generate_batch generateRandomVectorN vector_size n m_rand1
      in (v # vs, m_rand2))"

text \<open>
  \<open>DotProduct::DataGenerator::init\<close> (lines 168 to 241), for the element type
  whose kernel is \<open>vectorDotProduct\<close>. The result pack \<open>C\<close> has
  \<open>batch_sizes[2]\<close> buffers, a \<open>std::size_t\<close> product that wraps around; a
  buffer not yet written is \<open>None\<close>. The body of the two output loops is
  \<open>DotProduct_output_step\<close>. \<open>getResultIndex\<close> belongs to the data loader,
  which is not among the sources, and is a parameter. An index outside a pack is
  undefined behaviour, \<open>None\<close> for the whole pack here.
\<close>

definition DotProduct_output_step ::
  "('a list \<Rightarrow> 'a list \<Rightarrow> nat \<Rightarrow> 'a option) \<Rightarrow> (nat \<Rightarrow> nat \<Rightarrow> nat)
     \<Rightarrow> 'a list list \<Rightarrow> 'a list list \<Rightarrow> nat \<Rightarrow> nat \<times> nat
     \<Rightarrow> 'a option list option \<Rightarrow> 'a option list option" where
  "DotProduct_output_step vectorDotProduct getResultIndex A B vector_size ppi st =
     (case st of
        None \<Rightarrow> None
      | Some C \<Rightarrow>
          (let a_i = fst ppi; b_i = snd ppi; r_i = getResultIndex a_i b_i in
           if r_i < length C \<and> a_i < length A \<and> b_i < length B then
             (case vectorDotProduct (A ! a_i) (B ! b_i) vector_size of
                None \<Rightarrow> None
              | Some v \<Rightarrow> Some (C[r_i := Some v]))
           else None))"

definition DotProduct_DataGenerator_init ::
  "('a list \<Rightarrow> 'a list \<Rightarrow> nat \<Rightarrow> 'a option) \<Rightarrow> (nat \<Rightarrow> 'rng \<Rightarrow> 'a list \<times> 'rng)
     \<Rightarrow> (nat \<Rightarrow> nat \<Rightarrow> nat) \<Rightarrow> nat \<Rightarrow> 64 word \<Rightarrow> 64 word \<Rightarrow> 'rng
     \<Rightarrow> ('a list list \<times> 'a list list \<times> 'a option list option) \<times> 'rng" where
  "DotProduct_DataGenerator_init vectorDotProduct generateRandomVectorN getResultIndex
       vector_size batch_size_a batch_size_b m_rand =
     (let batch_sizes = [batch_size_a, batch_size_b, batch_size_a * batch_size_b];
          (A, m_rand1) = generate_batch generateRandomVectorN vector_size
                           (unat (batch_sizes ! 0)) m_rand;
          (B, m_rand2) = generate_batch generateRandomVectorN vector_size
                           (unat (batch_sizes ! 1)) m_rand1;
          C = fold (DotProduct_output_step vectorDotProduct getResultIndex A B vector_size)
                (List.product [0..<unat (batch_sizes ! 0)] [0..<unat (batch_sizes ! 1)])
                (Some (replicate (unat (batch_sizes ! 2)) None))
      in ((A, B, C), m_rand2))"

text \<open>
  For the examples: a generator that fills a buffer from a counter, and the
  row-major linearization of a pair of sample indices, which the specification
  gives for \<open>getResultIndex\<close>.
\<close>

definition lcg_vector :: "nat \<Rightarrow> nat \<Rightarrow> fp_value list \<times> nat" where
  "lcg_vector n s = (map (\<lambda>i. Finite (of_nat ((s + i) mod 7))) [0..<n], s + n)"

definition row_major :: "nat \<Rightarrow> nat \<Rightarrow> nat \<Rightarrow> nat" where
  "row_major batch_b a_i b_i = a_i * batch_b + b_i"

chapter \<open>Verification\<close>

section \<open>Sample sizes\<close>

lemma computeSampleSizes_loop_inv:
  "param_i + n \<le> length data_count \<Longrightarrow> param_i + n \<le> length ss \<Longrightarrow>
   \<exists>ss'. computeSampleSizes_loop d data_count param_i n (ss, r) =
            Some (ss', r * prod_list (map (sample_count d data_count) [param_i..<param_i + n])) \<and>
         length ss' = length ss \<and>
         (\<forall>i. param_i \<le> i \<and> i < param_i + n \<longrightarrow> ss' ! i = sample_count d data_count i) \<and>
         (\<forall>i. i < param_i \<or> param_i + n \<le> i \<longrightarrow> ss' ! i = ss ! i)"
proof (induction n arbitrary: param_i ss r)
  case 0
  then show ?case by auto
next
  case (Suc n)
  let ?v = "sample_count d data_count param_i"
  have b: "param_i < length data_count" "param_i < length ss" using Suc.prems by simp_all
  have "Suc param_i + n \<le> length data_count" "Suc param_i + n \<le> length (ss[param_i := ?v])"
    using Suc.prems by simp_all
  from Suc.IH [OF this, of "r * ?v"] obtain ss' where
    run: "computeSampleSizes_loop d data_count (Suc param_i) n (ss[param_i := ?v], r * ?v) =
            Some (ss', r * ?v * prod_list (map (sample_count d data_count) [Suc param_i..<Suc param_i + n]))"
    and len: "length ss' = length (ss[param_i := ?v])"
    and new: "\<forall>i. Suc param_i \<le> i \<and> i < Suc param_i + n \<longrightarrow> ss' ! i = sample_count d data_count i"
    and old: "\<forall>i. i < Suc param_i \<or> Suc param_i + n \<le> i \<longrightarrow> ss' ! i = ss[param_i := ?v] ! i"
    by blast
  have upt: "[param_i..<param_i + Suc n] = param_i # [Suc param_i..<Suc param_i + n]"
    by (simp add: upt_conv_Cons)
  have step: "computeSampleSizes_loop d data_count param_i (Suc n) (ss, r) =
     computeSampleSizes_loop d data_count (Suc param_i) n (ss[param_i := ?v], r * ?v)"
    using b by (simp add: sample_count_def Let_def)
  have at: "ss' ! param_i = ?v" using old b by simp
  show ?case
  proof (intro exI conjI)
    show "computeSampleSizes_loop d data_count param_i (Suc n) (ss, r) =
       Some (ss', r * prod_list (map (sample_count d data_count) [param_i..<param_i + Suc n]))"
      unfolding step run upt by (simp add: mult.assoc)
    show "length ss' = length ss" using len by simp
    show "\<forall>i. param_i \<le> i \<and> i < param_i + Suc n \<longrightarrow> ss' ! i = sample_count d data_count i"
    proof (intro allI impI)
      fix i assume i: "param_i \<le> i \<and> i < param_i + Suc n"
      show "ss' ! i = sample_count d data_count i"
      proof (cases "i = param_i")
        case True then show ?thesis using at by simp
      next
        case False then show ?thesis using new i by simp
      qed
    qed
    show "\<forall>i. i < param_i \<or> param_i + Suc n \<le> i \<longrightarrow> ss' ! i = ss ! i"
      using old by auto
  qed
qed

lemma unat_prod_list:
  "unat (prod_list (xs :: 64 word list)) = prod_list (map unat xs) mod 2 ^ 64"
proof (induction xs)
  case Nil show ?case by simp
next
  case (Cons x xs)
  have "unat (x * prod_list xs) = (unat x * unat (prod_list xs)) mod 2 ^ 64"
    by (simp add: unat_word_ariths)
  also have "\<dots> = (unat x * (prod_list (map unat xs) mod 2 ^ 64)) mod 2 ^ 64"
    by (simp add: Cons.IH)
  also have "\<dots> = (unat x * prod_list (map unat xs)) mod 2 ^ 64"
    by (rule mod_mult_right_eq)
  finally show ?case by simp
qed

text \<open>
  The product of the sample counts is taken in \<open>std::uint64_t\<close> and wraps
  around: for the data counts \<open>2 ^ 32\<close> and \<open>2 ^ 32\<close> the stored sample
  counts are \<open>2 ^ 32\<close> and \<open>2 ^ 32\<close> and the returned result batch size is
  0, which is not the product \<open>2 ^ 64\<close> of the two counts.
\<close>

theorem computeSampleSizes_overflow_counterexample:
  "computeSampleSizes [0, 0] 2 100
       \<lparr>workload = EltwiseAdd, cipher_param_mask = 0,
        offline_data_count = [4294967296, 4294967296]\<rparr>
     = Some ([4294967296, 4294967296], 0) \<and>
   unat (0 :: 64 word) \<noteq> unat (4294967296 :: 64 word) * unat (4294967296 :: 64 word)"
proof (rule conjI)
  show "computeSampleSizes [0, 0] 2 100
       \<lparr>workload = EltwiseAdd, cipher_param_mask = 0,
        offline_data_count = [4294967296, 4294967296]\<rparr>
     = Some ([4294967296, 4294967296], 0)"
    by code_simp
  show "unat (0 :: 64 word) \<noteq> unat (4294967296 :: 64 word) * unat (4294967296 :: 64 word)"
    by simp
qed

text \<open>
  Claim C4, amended. For an offline benchmark with \<open>param_count\<close> input
  parameters (no more than the descriptor's and the caller's arrays hold),
  \<open>computeSampleSizes\<close> returns; the sample count it stores for parameter \<open>i\<close>
  is \<open>data_count[i]\<close> when that entry is nonzero and the default sample size
  otherwise; and the returned result batch size is the \<open>std::uint64_t\<close> product
  of the stored sample counts, that is, their product modulo \<open>2 ^ 64\<close>, which is
  the product of the stored sample counts itself whenever that product is below
  \<open>2 ^ 64\<close>.
\<close>

theorem computeSampleSizes_spec:
  assumes "param_count \<le> length (offline_data_count bench_desc)"
    and "param_count \<le> length sample_sizes"
  shows "\<exists>ss r. computeSampleSizes sample_sizes param_count default_sample_size bench_desc
                   = Some (ss, r) \<and>
     length ss = length sample_sizes \<and>
     (\<forall>i < param_count. ss ! i =
        (if offline_data_count bench_desc ! i = 0 then default_sample_size
         else offline_data_count bench_desc ! i)) \<and>
     r = prod_list (take param_count ss) \<and>
     unat r = prod_list (map unat (take param_count ss)) mod 2 ^ 64 \<and>
     (prod_list (map unat (take param_count ss)) < 2 ^ 64 \<longrightarrow>
        unat r = prod_list (map unat (take param_count ss)))"
proof -
  let ?dc = "offline_data_count bench_desc"
  from computeSampleSizes_loop_inv [of 0 param_count ?dc sample_sizes default_sample_size 1] assms
  obtain ss' where
    run: "computeSampleSizes_loop default_sample_size ?dc 0 param_count (sample_sizes, 1) =
            Some (ss', prod_list (map (sample_count default_sample_size ?dc) [0..<param_count]))"
    and len: "length ss' = length sample_sizes"
    and new: "\<forall>i. i < param_count \<longrightarrow> ss' ! i = sample_count default_sample_size ?dc i"
    by auto
  have tk: "take param_count ss' = map (sample_count default_sample_size ?dc) [0..<param_count]"
    using new len assms(2) by (intro nth_equalityI) simp_all
  have md: "unat (prod_list (map (sample_count default_sample_size ?dc) [0..<param_count])) =
       prod_list (map unat (take param_count ss')) mod 2 ^ 64"
    unfolding tk by (rule unat_prod_list)
  show ?thesis
  proof (intro exI conjI)
    show "computeSampleSizes sample_sizes param_count default_sample_size bench_desc =
       Some (ss', prod_list (map (sample_count default_sample_size ?dc) [0..<param_count]))"
      by (simp add: computeSampleSizes_def run)
    show "length ss' = length sample_sizes" by (rule len)
    show "\<forall>i < param_count. ss' ! i = (if ?dc ! i = 0 then default_sample_size else ?dc ! i)"
      using new by (simp add: sample_count_def)
    show "prod_list (map (sample_count default_sample_size ?dc) [0..<param_count]) =
       prod_list (take param_count ss')" by (simp add: tk)
    show "unat (prod_list (map (sample_count default_sample_size ?dc) [0..<param_count])) =
       prod_list (map unat (take param_count ss')) mod 2 ^ 64"
      by (rule md)
    show "prod_list (map unat (take param_count ss')) < 2 ^ 64 \<longrightarrow>
       unat (prod_list (map (sample_count default_sample_size ?dc) [0..<param_count])) =
       prod_list (map unat (take param_count ss'))"
      unfolding md by simp
  qed
qed

text \<open>
  The theorem at the descriptor of an offline benchmark with two parameters that asks
  for 2 samples of the first and leaves the second to the default of 100: the
  stored counts are 2 and 100, the batch size 200, the product of the two.
\<close>

theorem computeSampleSizes_spec_witness:
  "\<exists>ss r. computeSampleSizes [0, 0, 0] 2 100
       \<lparr>workload = EltwiseAdd, cipher_param_mask = 0, offline_data_count = [2, 0, 0, 0]\<rparr>
         = Some (ss, r) \<and>
     ss = [2, 100, 0] \<and> r = 200 \<and> r = prod_list (take 2 ss) \<and>
     unat r = prod_list (map unat (take 2 ss))"
proof -
  let ?bd = "\<lparr>workload = EltwiseAdd, cipher_param_mask = 0,
              offline_data_count = [2, 0, 0, 0 :: 64 word]\<rparr>"
  have h1: "2 \<le> length (offline_data_count ?bd)" by simp
  have h2: "(2::nat) \<le> length [0, 0, 0 :: 64 word]" by simp
  have e: "computeSampleSizes [0, 0, 0] 2 100 ?bd = Some ([2, 100, 0], 200)"
    by code_simp
  from computeSampleSizes_spec [OF h1 h2, of 100] e show ?thesis by auto
qed

section \<open>The cipher-mask segment\<close>

lemma positions_iff: "i \<in> getCipherParamPositions m \<longleftrightarrow> bit m i"
  by (auto simp: getCipherParamPositions_def dest: bit_imp_le_length)

lemma positions_subset: "getCipherParamPositions m \<subseteq> {0..<32}"
  by (auto simp: getCipherParamPositions_def)

lemma positions_empty_iff: "getCipherParamPositions m = {} \<longleftrightarrow> m = 0"
proof
  assume "getCipherParamPositions m = {}"
  then have "\<forall>i. \<not> bit m i" using positions_iff by blast
  then show "m = 0" by (simp add: bit_eq_iff)
next
  assume "m = 0"
  then show "getCipherParamPositions m = {}"
    by (simp add: getCipherParamPositions_def)
qed

lemma positions_full_iff: "32 \<le> card (getCipherParamPositions m) \<longleftrightarrow> m = - 1"
proof
  assume c: "32 \<le> card (getCipherParamPositions m)"
  have "getCipherParamPositions m = {0..<32}"
  proof (rule card_subset_eq)
    show "finite {0..<32::nat}" by simp
    show "getCipherParamPositions m \<subseteq> {0..<32}" by (rule positions_subset)
    have "card (getCipherParamPositions m) \<le> card {0..<32::nat}"
      by (rule card_mono) (simp_all add: positions_subset)
    with c show "card (getCipherParamPositions m) = card {0..<32::nat}" by simp
  qed
  then have "\<forall>i<32. bit m i" using positions_iff by auto
  then show "m = - 1"
    by (auto simp: bit_eq_iff bit_simps dest: bit_imp_le_length)
next
  assume "m = - 1"
  then have "getCipherParamPositions m = {0..<32}"
    by (auto simp: getCipherParamPositions_def)
  then show "32 \<le> card (getCipherParamPositions m)" by simp
qed

text \<open>
  Claim C5. For every 32-bit cipher mask, the cipher-mask segment of the canonical
  path is \<open>all_plain\<close> when the mask is 0 and \<open>all_cipher\<close> when all 32 bits are
  set; otherwise the mask has a highest set bit \<open>h < 32\<close>, and the segment is a
  string over \<open>c\<close> and \<open>p\<close> with one character for each bit position from 0 up
  to and including \<open>h\<close>, a \<open>c\<close> exactly at the set positions.
\<close>

theorem cipher_mask_segment_spec:
  "(m = 0 \<longrightarrow> cipher_mask_segment m = ''all_plain'') \<and>
   (m = - 1 \<longrightarrow> cipher_mask_segment m = ''all_cipher'') \<and>
   (m \<noteq> 0 \<and> m \<noteq> - 1 \<longrightarrow>
      bit m (highest_set_bit m) \<and> (\<forall>j. bit m j \<longrightarrow> j \<le> highest_set_bit m) \<and>
      highest_set_bit m < 32 \<and>
      length (cipher_mask_segment m) = Suc (highest_set_bit m) \<and>
      set (cipher_mask_segment m) \<subseteq> {CHR ''c'', CHR ''p''} \<and>
      (\<forall>i \<le> highest_set_bit m.
          (cipher_mask_segment m ! i = CHR ''c'') = bit m i \<and>
          (cipher_mask_segment m ! i = CHR ''p'') = (\<not> bit m i)))"
proof (intro conjI impI)
  assume "m = 0"
  then show "cipher_mask_segment m = ''all_plain''"
    by (simp add: cipher_mask_segment_def positions_empty_iff)
next
  assume "m = - 1"
  then show "cipher_mask_segment m = ''all_cipher''"
    using positions_full_iff [of m] positions_empty_iff [of m]
    by (simp add: cipher_mask_segment_def Let_def)
next
  assume a: "m \<noteq> 0 \<and> m \<noteq> - 1"
  have P: "{i. bit m i} = getCipherParamPositions m" using positions_iff by auto
  have fin: "finite {i. bit m i}" unfolding P getCipherParamPositions_def by simp
  have ne: "{i. bit m i} \<noteq> {}" using a positions_empty_iff [of m] P by simp
  have seg: "cipher_mask_segment m =
      map (\<lambda>i. if bit m i then CHR ''c'' else CHR ''p'') [0..<Suc (highest_set_bit m)]"
    using a positions_full_iff [of m] positions_empty_iff [of m]
    by (simp add: cipher_mask_segment_def Let_def positions_iff highest_set_bit_def P)
  have "highest_set_bit m \<in> {i. bit m i}"
    unfolding highest_set_bit_def by (rule Max_in [OF fin ne])
  then show hb: "bit m (highest_set_bit m)" by simp
  then show "highest_set_bit m < 32" by (auto dest: bit_imp_le_length)
  show "\<forall>j. bit m j \<longrightarrow> j \<le> highest_set_bit m"
    unfolding highest_set_bit_def using Max_ge [OF fin] by simp
  show "length (cipher_mask_segment m) = Suc (highest_set_bit m)" by (simp add: seg)
  show "set (cipher_mask_segment m) \<subseteq> {CHR ''c'', CHR ''p''}" unfolding seg by auto
  show "\<forall>i \<le> highest_set_bit m.
          (cipher_mask_segment m ! i = CHR ''c'') = bit m i \<and>
          (cipher_mask_segment m ! i = CHR ''p'') = (\<not> bit m i)"
  proof (intro allI impI)
    fix i assume "i \<le> highest_set_bit m"
    then have "i < Suc (highest_set_bit m)" by simp
    then have "cipher_mask_segment m ! i = (if bit m i then CHR ''c'' else CHR ''p'')"
      unfolding seg by (simp only: nth_map_upt) simp
    then show "(cipher_mask_segment m ! i = CHR ''c'') = bit m i \<and>
          (cipher_mask_segment m ! i = CHR ''p'') = (\<not> bit m i)" by simp
  qed
qed

text \<open>
  The three cases at the masks 0, \<open>0xFFFFFFFF\<close> and 5 (parameters 0 and 2
  encrypted): the segments are \<open>all_plain\<close>, \<open>all_cipher\<close> and \<open>cpc\<close>.
\<close>

theorem cipher_mask_segment_spec_witness:
  "cipher_mask_segment 0 = ''all_plain'' \<and> cipher_mask_segment (- 1) = ''all_cipher'' \<and>
   (5 :: 32 word) \<noteq> 0 \<and> (5 :: 32 word) \<noteq> - 1 \<and>
   bit (5 :: 32 word) (highest_set_bit 5) \<and>
   length (cipher_mask_segment 5) = Suc (highest_set_bit 5) \<and>
   cipher_mask_segment 5 = ''cpc''"
proof -
  have a: "(5 :: 32 word) \<noteq> 0 \<and> (5 :: 32 word) \<noteq> - 1" by simp
  have "cipher_mask_segment 5 = ''cpc''" by code_simp
  then show ?thesis
    using cipher_mask_segment_spec [of 0] cipher_mask_segment_spec [of "- 1"]
          cipher_mask_segment_spec [of 5] a by simp
qed

section \<open>The directory-name sanitizer\<close>

lemma erase_front: "(case find_first_not_of s ch 0 of None \<Rightarrow> [] | Some n \<Rightarrow> drop n s)
    = dropWhile (\<lambda>c. c = ch) s"
proof -
  let ?n = "length (takeWhile (\<lambda>c. c = ch) s)"
  have d: "drop ?n s = dropWhile (\<lambda>c. c = ch) s" by (rule dropWhile_eq_drop [symmetric])
  show ?thesis
  proof (cases "?n < length s")
    case True
    then show ?thesis by (simp add: find_first_not_of_def d)
  next
    case False
    then have "?n = length s" using length_takeWhile_le [of "\<lambda>c. c = ch" s] by simp
    then have "dropWhile (\<lambda>c. c = ch) s = []" using d by (metis drop_all order_refl)
    with False show ?thesis by (simp add: find_first_not_of_def del: dropWhile_eq_Nil_conv)
  qed
qed

lemma erase_back: "take (case find_last_not_of s ch of None \<Rightarrow> 0 | Some n \<Rightarrow> n + 1) s
    = rev (dropWhile (\<lambda>c. c = ch) (rev s))"
proof -
  let ?n = "length (takeWhile (\<lambda>c. c = ch) (rev s))"
  have le: "?n \<le> length s" using length_takeWhile_le [of "\<lambda>c. c = ch" "rev s"] by simp
  have d: "rev (dropWhile (\<lambda>c. c = ch) (rev s)) = take (length s - ?n) s"
    by (simp add: dropWhile_eq_drop rev_drop)
  show ?thesis
  proof (cases "?n < length s")
    case True
    then have "Suc (length s - Suc ?n) = length s - ?n" by simp
    with True show ?thesis by (simp add: find_last_not_of_def d)
  next
    case False
    with le have "?n = length s" by simp
    then show ?thesis using False by (simp add: find_last_not_of_def d)
  qed
qed

lemma squeeze_no_underscore: "CHR ''_'' \<notin> set xs \<Longrightarrow> squeeze xs = xs"
  by (induction xs rule: squeeze.induct) auto

lemma squeeze_underscores:
  "set us \<subseteq> {CHR ''_''} \<Longrightarrow> squeeze (CHR ''_'' # us) = ''_''"
  by (induction us) auto

lemma squeeze_underscores_then:
  "set us \<subseteq> {CHR ''_''} \<Longrightarrow> c \<noteq> CHR ''_'' \<Longrightarrow>
   squeeze (CHR ''_'' # us @ c # r) = CHR ''_'' # squeeze (c # r)"
  by (induction us) auto

lemma squeeze_prefix:
  "CHR ''_'' \<notin> set pre \<Longrightarrow> squeeze (pre @ CHR ''_'' # r) = pre @ squeeze (CHR ''_'' # r)"
  by (induction pre rule: squeeze.induct) auto

lemma collapse_loop_squeeze:
  "collapse_loop s pos out = out @ squeeze (drop pos s)"
proof (induction s pos out rule: collapse_loop.induct)
  case (1 s pos out)
  show ?case
  proof (cases "pos < length s")
    case False
    then show ?thesis by simp
  next
    case True
    let ?u = "drop pos s"
    let ?pre = "takeWhile (\<lambda>c. c \<noteq> CHR ''_'') ?u"
    let ?rest = "dropWhile (\<lambda>c. c \<noteq> CHR ''_'') ?u"
    have u: "?u = ?pre @ ?rest" by simp
    have pre: "CHR ''_'' \<notin> set ?pre" by (auto dest: set_takeWhileD)
    have lenu: "length ?u = length s - pos" by simp
    show ?thesis
    proof (cases "find_first_of s CHR ''_'' pos")
      case None
      then have "length ?pre = length ?u"
        using True length_takeWhile_le [of "\<lambda>c. c \<noteq> CHR ''_''" ?u]
        by (simp add: find_first_of_def Let_def split: if_splits)
      then have "?pre = ?u" by (metis takeWhile_eq_take take_all order_refl)
      then have "CHR ''_'' \<notin> set ?u" using pre by metis
      then have "squeeze ?u = ?u" by (rule squeeze_no_underscore)
      with None True show ?thesis
        by (simp add: substr_def del: collapse_loop.simps add: collapse_loop.simps [of s pos out])
    next
      case (Some i)
      then have i: "i = pos + length ?pre" and il: "i < length s"
        by (auto simp: find_first_of_def Let_def split: if_splits)
      have "length ?pre < length ?u" using i il by simp
      then have "?rest \<noteq> []" using u by (metis append_Nil2 less_irrefl)
      then obtain r where rest: "?rest = CHR ''_'' # r"
        using hd_dropWhile [of "\<lambda>c. c \<noteq> CHR ''_''" ?u] by (cases ?rest) auto
      let ?us = "takeWhile (\<lambda>c. c = CHR ''_'') r"
      let ?r' = "dropWhile (\<lambda>c. c = CHR ''_'') r"
      have us: "set ?us \<subseteq> {CHR ''_''}" by (auto dest: set_takeWhileD)
      have dropi: "drop (i + 1) s = r"
      proof -
        have "drop (i + 1) s = drop (length ?pre + 1) ?u" by (simp add: i add.commute)
        also have "\<dots> = drop (length ?pre + 1) (?pre @ CHR ''_'' # r)" using u rest by simp
        also have "\<dots> = r" by simp
        finally show ?thesis .
      qed
      have out1: "substr s pos (Some ((if i < length s then i + 1 else i) - pos)) = ?pre @ ''_''"
      proof -
        have "take (length ?pre + 1) ?u = take (length ?pre + 1) (?pre @ CHR ''_'' # r)"
          using u rest by simp
        then show ?thesis using il by (simp add: substr_def i)
      qed
      have sq: "squeeze ?u = ?pre @ squeeze (CHR ''_'' # r)"
      proof -
        have "?u = ?pre @ CHR ''_'' # r" using u rest by simp
        then show ?thesis using squeeze_prefix [OF pre] by metis
      qed
      show ?thesis
      proof (cases "find_first_not_of s CHR ''_'' (if i < length s then i + 1 else i)")
        case None
        have lr: "length r = length s - (i + 1)" using dropi by (metis length_drop)
        from None have "length ?us = length r"
          using il dropi lr length_takeWhile_le [of "\<lambda>c. c = CHR ''_''" r]
          by (simp add: find_first_not_of_def Let_def split: if_splits)
        then have "?us = r" by (metis takeWhile_eq_take take_all order_refl)
        then have "set r \<subseteq> {CHR ''_''}" using us by metis
        then have "squeeze (CHR ''_'' # r) = ''_''" by (rule squeeze_underscores)
        with None Some True out1 sq show ?thesis
          by (simp del: collapse_loop.simps add: collapse_loop.simps [of s pos out])
      next
        case (Some j)
        then have j: "j = i + 1 + length ?us" and jl: "j < length s"
          using il dropi by (auto simp: find_first_not_of_def Let_def split: if_splits)
        have dropj: "drop j s = ?r'"
        proof -
          have "drop (length ?us) (drop (i + 1) s) = drop (length ?us + (i + 1)) s"
            by (rule drop_drop)
          moreover have "length ?us + (i + 1) = j" using j by simp
          ultimately have "drop j s = drop (length ?us) (drop (i + 1) s)" by simp
          also have "\<dots> = drop (length ?us) r" by (simp only: dropi)
          also have "\<dots> = ?r'" by (simp add: dropWhile_eq_drop)
          finally show ?thesis .
        qed
        have "?r' \<noteq> []" using jl dropj by (metis drop_eq_Nil not_le)
        then obtain c r2 where r': "?r' = c # r2" and c: "c \<noteq> CHR ''_''"
          using hd_dropWhile [of "\<lambda>c. c = CHR ''_''" r] by (cases ?r') auto
        have "r = ?us @ c # r2" using r' by (metis takeWhile_dropWhile_id)
        then have "squeeze (CHR ''_'' # r) = CHR ''_'' # squeeze (c # r2)"
          using squeeze_underscores_then [OF us c] by metis
        then have sq2: "squeeze ?u = ?pre @ ''_'' @ squeeze (drop j s)"
          using sq dropj r' by simp
        have IH: "collapse_loop s j (out @ substr s pos (Some ((if i < length s then i + 1 else i) - pos)))
           = (out @ substr s pos (Some ((if i < length s then i + 1 else i) - pos))) @ squeeze (drop j s)"
          using "1.IH" [OF True \<open>find_first_of s CHR ''_'' pos = Some i\<close> Some] .
        have "collapse_loop s pos out =
           collapse_loop s j (out @ substr s pos (Some ((if i < length s then i + 1 else i) - pos)))"
          using True \<open>find_first_of s CHR ''_'' pos = Some i\<close> Some
          by (simp del: collapse_loop.simps add: collapse_loop.simps [of s pos out])
        then show ?thesis using IH out1 sq2 by simp
      qed
    qed
  qed
qed

lemma convertToDirectoryName_refines:
  "convertToDirectoryName s to_lowercase = sanitize_spec to_lowercase s"
  unfolding convertToDirectoryName_def sanitize_spec_def trim_def Let_def
  by (simp only: erase_front erase_back collapse_loop_squeeze) simp

lemma of_char_tolower:
  "(65::nat) \<le> of_char c \<Longrightarrow> (of_char c :: nat) \<le> 90 \<Longrightarrow>
   (of_char (tolower c) :: nat) = of_char c + 32"
  by (simp add: tolower_def Let_def)

lemma tolower_id:
  "\<not> ((65::nat) \<le> of_char c \<and> (of_char c :: nat) \<le> 90) \<Longrightarrow> tolower c = c"
  by (auto simp: tolower_def Let_def)

lemma isalnum_tolower: "isalnum (tolower c) = isalnum c"
proof (cases "(65::nat) \<le> of_char c \<and> (of_char c :: nat) \<le> 90")
  case True
  then have "(of_char (tolower c) :: nat) = of_char c + 32" by (simp add: of_char_tolower)
  with True show ?thesis by (simp add: isalnum_def Let_def)
next
  case False
  then have "tolower c = c" by (auto simp: tolower_def Let_def)
  then show ?thesis by simp
qed

lemma tolower_idem: "tolower (tolower c) = tolower c"
proof (cases "(65::nat) \<le> of_char c \<and> (of_char c :: nat) \<le> 90")
  case True
  then have "(of_char (tolower c) :: nat) = of_char c + 32" by (simp add: of_char_tolower)
  then have "\<not> ((65::nat) \<le> of_char (tolower c) \<and> (of_char (tolower c) :: nat) \<le> 90)"
    using True by simp
  then show ?thesis by (rule tolower_id)
next
  case False
  then have "tolower c = c" by (auto simp: tolower_def Let_def)
  then show ?thesis by simp
qed

lemma tolower_dot: "tolower CHR ''.'' = CHR ''.''"
  by (simp add: tolower_def)

lemma tolower_eq_dot: "tolower c = CHR ''.'' \<longleftrightarrow> c = CHR ''.''"
proof (cases "(65::nat) \<le> of_char c \<and> (of_char c :: nat) \<le> 90")
  case True
  then have "(of_char (tolower c) :: nat) = of_char c + 32" by (simp add: of_char_tolower)
  with True have "(of_char (tolower c) :: nat) \<noteq> 46" "(of_char c :: nat) \<noteq> 46" by simp_all
  then have "tolower c \<noteq> CHR ''.''" "c \<noteq> CHR ''.''" by auto
  then show ?thesis by simp
next
  case False
  then have "tolower c = c" by (auto simp: tolower_def Let_def)
  then show ?thesis by simp
qed

lemma not_keeps_underscore: "\<not> keeps CHR ''_''"
  by (simp add: keeps_def isalnum_def)

lemma keeps_tolower: "keeps (tolower c) = keeps c"
  by (simp add: keeps_def isalnum_tolower tolower_eq_dot)

lemma to_directory_char_cases:
  "to_directory_char b c = (if keeps c then (if b then tolower c else c) else CHR ''_'')"
  by (simp add: to_directory_char_def keeps_def)

lemma to_directory_char_ok:
  "keeps (to_directory_char b c) \<or> to_directory_char b c = CHR ''_''"
  by (simp add: to_directory_char_cases keeps_tolower)

lemma keeps_to_directory_char: "keeps (to_directory_char b c) = keeps c"
  by (simp add: to_directory_char_cases keeps_tolower not_keeps_underscore)

lemma to_directory_char_idem:
  "to_directory_char b (to_directory_char b c) = to_directory_char b c"
  by (simp add: to_directory_char_cases keeps_tolower tolower_idem not_keeps_underscore)

lemma set_squeeze: "set (squeeze xs) = set xs"
  by (induction xs rule: squeeze.induct) auto

lemma squeeze_Nil_iff: "squeeze xs = [] \<longleftrightarrow> xs = []"
  by (induction xs rule: squeeze.induct) auto

lemma hd_squeeze: "hd (squeeze xs) = hd xs"
  by (induction xs rule: squeeze.induct) auto

lemma last_squeeze: "last (squeeze xs) = last xs"
  by (induction xs rule: squeeze.induct) (auto simp: squeeze_Nil_iff)

lemma squeeze_no_double: "no_double_underscore (squeeze xs)"
proof (induction xs rule: squeeze.induct)
  case (3 c d cs)
  then show ?case
    by (cases "squeeze (d # cs)") (auto simp: squeeze_Nil_iff dest: arg_cong [where f = hd] simp: hd_squeeze)
qed simp_all

lemma squeeze_id: "no_double_underscore xs \<Longrightarrow> squeeze xs = xs"
  by (induction xs rule: squeeze.induct) auto

lemma squeeze_idem: "squeeze (squeeze xs) = squeeze xs"
  by (rule squeeze_id [OF squeeze_no_double])

lemma filter_keeps_squeeze: "filter keeps (squeeze xs) = filter keeps xs"
  by (induction xs rule: squeeze.induct) (auto simp: not_keeps_underscore)

lemma filter_keeps_dropWhile:
  "filter keeps (dropWhile (\<lambda>c. c = CHR ''_'') xs) = filter keeps xs"
  by (induction xs) (auto simp: not_keeps_underscore)

lemma filter_keeps_trim: "filter keeps (trim xs) = filter keeps xs"
proof -
  have "filter keeps (trim xs) =
      rev (filter keeps (dropWhile (\<lambda>c. c = CHR ''_'') (rev (dropWhile (\<lambda>c. c = CHR ''_'') xs))))"
    by (simp add: trim_def rev_filter)
  also have "\<dots> = rev (filter keeps (rev (dropWhile (\<lambda>c. c = CHR ''_'') xs)))"
    by (simp only: filter_keeps_dropWhile)
  also have "\<dots> = filter keeps (dropWhile (\<lambda>c. c = CHR ''_'') xs)"
    by (simp add: rev_filter)
  finally show ?thesis by (simp only: filter_keeps_dropWhile)
qed

lemma rev_dropWhile_rev_prefix:
  "ys = rev (dropWhile P (rev ys)) @ rev (takeWhile P (rev ys))"
proof -
  have "ys = rev (takeWhile P (rev ys) @ dropWhile P (rev ys))" by simp
  also have "\<dots> = rev (dropWhile P (rev ys)) @ rev (takeWhile P (rev ys))"
    by (rule rev_append)
  finally show ?thesis .
qed

lemma strip_back_ends:
  assumes "ys = [] \<or> \<not> P (hd ys)"
  shows "rev (dropWhile P (rev ys)) = [] \<or>
     (\<not> P (hd (rev (dropWhile P (rev ys)))) \<and> \<not> P (last (rev (dropWhile P (rev ys)))))"
proof (cases "dropWhile P (rev ys) = []")
  case True
  then show ?thesis by (simp only: rev.simps) simp
next
  case False
  let ?zs = "dropWhile P (rev ys)"
  have hz: "\<not> P (hd ?zs)" using False by (rule hd_dropWhile)
  have "last (rev ?zs) = hd ?zs" by (rule last_rev)
  with hz have l: "\<not> P (last (rev ?zs))" by simp
  have rz: "rev ?zs \<noteq> []" using False by simp
  have "hd (rev ?zs @ rev (takeWhile P (rev ys))) = hd (rev ?zs)" using rz by (rule hd_append2)
  then have h: "hd ys = hd (rev ?zs)" by (simp only: rev_dropWhile_rev_prefix [symmetric])
  have "ys \<noteq> []"
  proof
    assume "ys = []"
    then have "dropWhile P (rev ys) = dropWhile P (rev [])" by (rule arg_cong)
    then show False using False by simp
  qed
  with assms have "\<not> P (hd ys)" by simp
  with h l show ?thesis by simp
qed

lemma trim_ends:
  "trim xs = [] \<or> (hd (trim xs) \<noteq> CHR ''_'' \<and> last (trim xs) \<noteq> CHR ''_'')"
proof -
  let ?P = "\<lambda>c. c = CHR ''_''"
  have "dropWhile ?P xs = [] \<or> \<not> ?P (hd (dropWhile ?P xs))"
    using hd_dropWhile [of ?P xs] by blast
  from strip_back_ends [of "dropWhile ?P xs" ?P, OF this]
  show ?thesis unfolding trim_def .
qed

lemma trim_id:
  assumes "xs = [] \<or> (hd xs \<noteq> CHR ''_'' \<and> last xs \<noteq> CHR ''_'')"
  shows "trim xs = xs"
proof (cases xs)
  case Nil then show ?thesis by (simp add: trim_def)
next
  case (Cons x xs')
  with assms have h: "x \<noteq> CHR ''_''" and l: "last xs \<noteq> CHR ''_''" by auto
  have 1: "dropWhile (\<lambda>c. c = CHR ''_'') xs = xs" using Cons h by simp
  have bl: "butlast xs @ [last xs] = xs" using Cons by simp
  have "rev (butlast xs @ [last xs]) = last xs # rev (butlast xs)" by simp
  then have r: "rev xs = last xs # rev (butlast xs)" by (simp only: bl)
  have "dropWhile (\<lambda>c. c = CHR ''_'') (last xs # rev (butlast xs)) = last xs # rev (butlast xs)"
    using l by simp
  then have 2: "dropWhile (\<lambda>c. c = CHR ''_'') (rev xs) = rev xs"
    by (simp only: r)
  show ?thesis by (simp add: trim_def 1 2)
qed

lemma set_trim: "set (trim xs) \<subseteq> set xs"
proof -
  have "set (trim xs) \<subseteq> set (dropWhile (\<lambda>c. c = CHR ''_'') xs)"
    unfolding trim_def using set_dropWhileD by fastforce
  also have "\<dots> \<subseteq> set xs" using set_dropWhileD by fastforce
  finally show ?thesis .
qed

lemma sanitize_spec_chars:
  "c \<in> set (sanitize_spec b s) \<Longrightarrow> keeps c \<or> c = CHR ''_''"
proof -
  assume "c \<in> set (sanitize_spec b s)"
  then have "c \<in> set (trim (map (to_directory_char b) s))"
    by (simp add: sanitize_spec_def set_squeeze)
  then have "c \<in> set (map (to_directory_char b) s)"
    using set_trim [of "map (to_directory_char b) s"] by blast
  then show ?thesis using to_directory_char_ok by auto
qed

lemma sanitize_spec_fixed_chars:
  "c \<in> set (sanitize_spec b s) \<Longrightarrow> to_directory_char b c = c"
proof -
  assume "c \<in> set (sanitize_spec b s)"
  then have "c \<in> set (trim (map (to_directory_char b) s))"
    by (simp add: sanitize_spec_def set_squeeze)
  then have "c \<in> set (map (to_directory_char b) s)"
    using set_trim [of "map (to_directory_char b) s"] by blast
  then show ?thesis using to_directory_char_idem by auto
qed

lemma sanitize_spec_ends:
  "sanitize_spec b s = [] \<or>
   (hd (sanitize_spec b s) \<noteq> CHR ''_'' \<and> last (sanitize_spec b s) \<noteq> CHR ''_'')"
  using trim_ends [of "map (to_directory_char b) s"]
  by (simp add: sanitize_spec_def squeeze_Nil_iff hd_squeeze last_squeeze)

lemma sanitize_spec_idem: "sanitize_spec b (sanitize_spec b s) = sanitize_spec b s"
proof -
  let ?r = "sanitize_spec b s"
  have "map (to_directory_char b) ?r = ?r"
    using sanitize_spec_fixed_chars by (simp add: map_idI)
  moreover have "trim ?r = ?r" by (rule trim_id [OF sanitize_spec_ends])
  moreover have "squeeze ?r = ?r" by (simp add: sanitize_spec_def squeeze_idem)
  ultimately show ?thesis by (simp add: sanitize_spec_def [of b ?r])
qed

lemma filter_keeps_sanitize:
  "filter keeps (sanitize_spec b s) = map (\<lambda>c. if b then tolower c else c) (filter keeps s)"
proof -
  have "filter keeps (sanitize_spec b s) = filter keeps (map (to_directory_char b) s)"
    by (simp add: sanitize_spec_def filter_keeps_squeeze filter_keeps_trim)
  also have "\<dots> = map (\<lambda>c. if b then tolower c else c) (filter keeps s)"
    by (induction s) (simp_all add: keeps_to_directory_char, simp_all add: to_directory_char_cases)
  finally show ?thesis .
qed

lemma sanitize_spec_Nil_iff: "sanitize_spec b s = [] \<longleftrightarrow> (\<forall>c \<in> set s. \<not> keeps c)"
proof
  assume "sanitize_spec b s = []"
  then have "filter keeps (sanitize_spec b s) = []" by simp
  then have "map (\<lambda>c. if b then tolower c else c) (filter keeps s) = []"
    by (simp only: filter_keeps_sanitize)
  then have "filter keeps s = []" by simp
  then show "\<forall>c \<in> set s. \<not> keeps c" by (simp add: filter_empty_conv)
next
  assume a: "\<forall>c \<in> set s. \<not> keeps c"
  then have "filter keeps s = []" by (simp add: filter_empty_conv)
  then have "map (\<lambda>c. if b then tolower c else c) (filter keeps s) = []" by simp
  then have f: "filter keeps (sanitize_spec b s) = []" by (simp only: filter_keeps_sanitize)
  show "sanitize_spec b s = []"
  proof (rule ccontr)
    let ?r = "sanitize_spec b s"
    assume ne: "?r \<noteq> []"
    then have m: "hd ?r \<in> set ?r" by (rule hd_in_set)
    have "hd ?r \<noteq> CHR ''_''" using sanitize_spec_ends [of b s] ne by simp
    with sanitize_spec_chars [OF m] have "keeps (hd ?r)" by simp
    with m have "hd ?r \<in> set (filter keeps ?r)" by simp
    with f show False by simp
  qed
qed

text \<open>
  Claim C8. The directory-name sanitizer is idempotent: sanitizing a sanitized
  string (with the same lower-case option) returns it unchanged.
\<close>

theorem convertToDirectoryName_idempotent:
  "convertToDirectoryName (convertToDirectoryName s to_lowercase) to_lowercase =
   convertToDirectoryName s to_lowercase"
  by (simp only: convertToDirectoryName_refines sanitize_spec_idem)

text \<open>The theorem at a workload name, with and without the lower-case option.\<close>

theorem convertToDirectoryName_idempotent_witness:
  "convertToDirectoryName ''__Dot Product  1000__'' False = ''Dot_Product_1000'' \<and>
   convertToDirectoryName (convertToDirectoryName ''__Dot Product  1000__'' False) False =
     ''Dot_Product_1000'' \<and>
   convertToDirectoryName ''__Dot Product  1000__'' True = ''dot_product_1000'' \<and>
   convertToDirectoryName (convertToDirectoryName ''__Dot Product  1000__'' True) True =
     ''dot_product_1000''"
proof -
  have 1: "convertToDirectoryName ''__Dot Product  1000__'' False = ''Dot_Product_1000''"
    by code_simp
  have 2: "convertToDirectoryName ''__Dot Product  1000__'' True = ''dot_product_1000''"
    by code_simp
  from convertToDirectoryName_idempotent [of "''__Dot Product  1000__''" False]
       convertToDirectoryName_idempotent [of "''__Dot Product  1000__''" True] 1 2
  show ?thesis by simp
qed

text \<open>
  The sanitized string can be empty: the empty string and a string with no
  alphanumeric character and no dot are sanitized to the empty string, which does
  not match \<open>[A-Za-z0-9._]+\<close>. The scheme and security names that
  \<open>describe\<close> sanitizes come from the backend, which may return such a name.
\<close>

theorem convertToDirectoryName_empty_counterexample:
  "convertToDirectoryName '''' False = '''' \<and> convertToDirectoryName '''' True = '''' \<and>
   convertToDirectoryName ''(*)'' False = '''' \<and> convertToDirectoryName ''(*)'' True = ''''"
  by code_simp

text \<open>
  Claim C9, amended. For every input string, every character of the sanitized
  string is alphanumeric, a dot or an underscore (the string matches
  \<open>[A-Za-z0-9._]*\<close>); it is non-empty exactly when the input has an
  alphanumeric character or a dot; when non-empty it neither starts nor ends with
  an underscore; it has no two adjacent underscores; its alphanumeric characters
  and dots are those of the input, in order (each lower-cased when the lower-case
  option is set); and as a whole it is the input with every other character
  replaced by an underscore, leading and trailing underscores removed and each
  run of underscores collapsed to one.
\<close>

theorem convertToDirectoryName_segment:
  "(\<forall>c \<in> set (convertToDirectoryName s to_lowercase).
       isalnum c \<or> c = CHR ''.'' \<or> c = CHR ''_'') \<and>
   (convertToDirectoryName s to_lowercase \<noteq> [] \<longleftrightarrow>
       (\<exists>c \<in> set s. isalnum c \<or> c = CHR ''.'')) \<and>
   (convertToDirectoryName s to_lowercase \<noteq> [] \<longrightarrow>
       hd (convertToDirectoryName s to_lowercase) \<noteq> CHR ''_'' \<and>
       last (convertToDirectoryName s to_lowercase) \<noteq> CHR ''_'') \<and>
   no_double_underscore (convertToDirectoryName s to_lowercase) \<and>
   filter keeps (convertToDirectoryName s to_lowercase) =
     map (\<lambda>c. if to_lowercase then tolower c else c) (filter keeps s) \<and>
   convertToDirectoryName s to_lowercase =
     squeeze (trim (map (\<lambda>c. if keeps c then (if to_lowercase then tolower c else c)
                              else CHR ''_'') s))"
proof (intro conjI)
  let ?r = "convertToDirectoryName s to_lowercase"
  have r: "?r = sanitize_spec to_lowercase s" by (rule convertToDirectoryName_refines)
  show "\<forall>c \<in> set ?r. isalnum c \<or> c = CHR ''.'' \<or> c = CHR ''_''"
    using sanitize_spec_chars [of _ to_lowercase s] unfolding r keeps_def by blast
  show "?r \<noteq> [] \<longleftrightarrow> (\<exists>c \<in> set s. isalnum c \<or> c = CHR ''.'')"
    unfolding r sanitize_spec_Nil_iff keeps_def by blast
  show "?r \<noteq> [] \<longrightarrow> hd ?r \<noteq> CHR ''_'' \<and> last ?r \<noteq> CHR ''_''"
    using sanitize_spec_ends [of to_lowercase s] unfolding r by blast
  show "no_double_underscore ?r"
    unfolding r sanitize_spec_def by (rule squeeze_no_double)
  show "filter keeps ?r = map (\<lambda>c. if to_lowercase then tolower c else c) (filter keeps s)"
    unfolding r by (rule filter_keeps_sanitize)
  have "to_directory_char to_lowercase =
      (\<lambda>c. if keeps c then (if to_lowercase then tolower c else c) else CHR ''_'')"
    by (rule ext) (rule to_directory_char_cases)
  then show "?r = squeeze (trim (map (\<lambda>c. if keeps c then (if to_lowercase then tolower c else c)
                              else CHR ''_'') s))"
    unfolding r sanitize_spec_def by simp
qed

text \<open>The theorem at a security name: \<open>128 bits (toy)\<close> becomes \<open>128_bits_toy\<close>.\<close>

theorem convertToDirectoryName_segment_witness:
  "convertToDirectoryName ''128 bits (toy)'' False = ''128_bits_toy'' \<and>
   convertToDirectoryName ''128 bits (toy)'' False \<noteq> [] \<and>
   hd (convertToDirectoryName ''128 bits (toy)'' False) \<noteq> CHR ''_'' \<and>
   last (convertToDirectoryName ''128 bits (toy)'' False) \<noteq> CHR ''_'' \<and>
   no_double_underscore (convertToDirectoryName ''128 bits (toy)'' False)"
proof -
  have e: "convertToDirectoryName ''128 bits (toy)'' False = ''128_bits_toy''" by code_simp
  then have ne: "convertToDirectoryName ''128 bits (toy)'' False \<noteq> []" by simp
  note t = convertToDirectoryName_segment [of "''128 bits (toy)''" False]
  have 3: "hd (convertToDirectoryName ''128 bits (toy)'' False) \<noteq> CHR ''_'' \<and>
       last (convertToDirectoryName ''128 bits (toy)'' False) \<noteq> CHR ''_''"
    using t [THEN conjunct2, THEN conjunct2, THEN conjunct1] ne by (rule mp)
  have 4: "no_double_underscore (convertToDirectoryName ''128 bits (toy)'' False)"
    using t [THEN conjunct2, THEN conjunct2, THEN conjunct2, THEN conjunct1] .
  from e ne 3 4 show ?thesis by (intro conjI) (rule e ne, simp_all only: simp_thms)
qed

section \<open>The workload matchers\<close>

lemma validate_loop_iff:
  "validate_loop tys wp i n = Inr () \<longleftrightarrow>
     (\<forall>k. i \<le> k \<and> k < i + n \<longrightarrow> data_type (wp ! k) = tys ! k \<and> u_param (wp ! k) \<noteq> 0)"
proof (induction n arbitrary: i)
  case 0
  show ?case by auto
next
  case (Suc n)
  have split: "\<And>P. (\<forall>k. i \<le> k \<and> k < i + Suc n \<longrightarrow> P k) \<longleftrightarrow>
                 P i \<and> (\<forall>k. Suc i \<le> k \<and> k < Suc i + n \<longrightarrow> P k)"
  proof -
    fix P :: "nat \<Rightarrow> bool"
    show "(\<forall>k. i \<le> k \<and> k < i + Suc n \<longrightarrow> P k) \<longleftrightarrow>
                 P i \<and> (\<forall>k. Suc i \<le> k \<and> k < Suc i + n \<longrightarrow> P k)"
    proof
      assume a: "\<forall>k. i \<le> k \<and> k < i + Suc n \<longrightarrow> P k"
      then have "P i" by simp
      moreover have "\<forall>k. Suc i \<le> k \<and> k < Suc i + n \<longrightarrow> P k" using a by simp
      ultimately show "P i \<and> (\<forall>k. Suc i \<le> k \<and> k < Suc i + n \<longrightarrow> P k)" by simp
    next
      assume b: "P i \<and> (\<forall>k. Suc i \<le> k \<and> k < Suc i + n \<longrightarrow> P k)"
      show "\<forall>k. i \<le> k \<and> k < i + Suc n \<longrightarrow> P k"
      proof (intro allI impI)
        fix k assume k: "i \<le> k \<and> k < i + Suc n"
        show "P k"
        proof (cases "k = i")
          case True with b show ?thesis by simp
        next
          case False with k b show ?thesis by simp
        qed
      qed
    qed
  qed
  show ?case
    unfolding split [of "\<lambda>k. data_type (wp ! k) = tys ! k \<and> u_param (wp ! k) \<noteq> 0"]
    using Suc.IH [of "Suc i"] by (simp add: word_le_0_iff)
qed

lemma validate_workload_params_iff:
  "validate_workload_params tys wp = Inr () \<longleftrightarrow>
     length tys \<le> length wp \<and>
     (\<forall>k < length tys. data_type (wp ! k) = tys ! k \<and> u_param (wp ! k) \<noteq> 0)"
  by (simp add: validate_workload_params_def validate_loop_iff not_less)

lemma validate_uint64_iff:
  "validate_workload_params (replicate n WP_UInt64) wp = Inr () \<longleftrightarrow>
     n \<le> length wp \<and> (\<forall>k < n. well_formed_param (wp ! k))"
  by (simp add: validate_workload_params_iff well_formed_param_def)

lemma validate_take:
  "length tys \<le> length wp \<Longrightarrow>
   validate_workload_params tys (take (length tys) wp) = validate_workload_params tys wp"
proof -
  assume l: "length tys \<le> length wp"
  have "validate_workload_params tys (take (length tys) wp) = Inr () \<longleftrightarrow>
        validate_workload_params tys wp = Inr ()"
    using l by (simp add: validate_workload_params_iff)
  moreover have "\<And>x. x = Inr () \<or> x = Inl invalid_argument \<or> x = Inl out_of_range"
  proof -
    fix x :: "error + unit"
    show "x = Inr () \<or> x = Inl invalid_argument \<or> x = Inl out_of_range"
    proof (cases x)
      case (Inl e) then show ?thesis by (cases e) simp_all
    next
      case (Inr u) then show ?thesis by simp
    qed
  qed
  moreover have "\<And>w. validate_workload_params tys w \<noteq> Inl out_of_range"
  proof -
    fix w
    have "\<And>i n. validate_loop tys w i n \<noteq> Inl out_of_range"
    proof -
      fix i n show "validate_loop tys w i n \<noteq> Inl out_of_range"
        by (induction n arbitrary: i) simp_all
    qed
    then show "validate_workload_params tys w \<noteq> Inl out_of_range"
      by (simp add: validate_workload_params_def)
  qed
  ultimately show ?thesis by metis
qed

lemma vector_at_take: "i < n \<Longrightarrow> vector_at (take n xs) i = vector_at xs i"
  by (simp add: vector_at_def)

lemma show_uint64_nonempty: "show_uint64 w \<noteq> []"
  by (simp add: show_uint64_def to_decimal.simps [of "unat w"])

lemma DotProduct_fetchVectorSize_iff:
  "DotProduct_fetchVectorSize wp = Inr v \<longleftrightarrow>
     1 \<le> length wp \<and> well_formed_param (wp ! 0) \<and> v = u_param (wp ! 0)"
proof -
  have ty: "DotProduct_WorkloadParameterType = replicate 1 WP_UInt64"
    by (simp add: DotProduct_WorkloadParameterType_def)
  show ?thesis
  proof (cases "validate_workload_params DotProduct_WorkloadParameterType wp")
    case (Inl e)
    then have "validate_workload_params (replicate 1 WP_UInt64) wp \<noteq> Inr ()" by (simp add: ty)
    then have "\<not> (1 \<le> length wp \<and> well_formed_param (wp ! 0))"
      unfolding validate_uint64_iff by simp
    with Inl show ?thesis by (auto simp: DotProduct_fetchVectorSize_def)
  next
    case (Inr u)
    then have "validate_workload_params (replicate 1 WP_UInt64) wp = Inr ()" by (simp add: ty)
    then have ok: "1 \<le> length wp \<and> well_formed_param (wp ! 0)"
      unfolding validate_uint64_iff by simp
    with Inr show ?thesis by (auto simp: DotProduct_fetchVectorSize_def vector_at_def)
  qed
qed

lemma LogisticRegression_fetchVectorSize_iff:
  "LogisticRegression_fetchVectorSize wp = Inr v \<longleftrightarrow>
     1 \<le> length wp \<and> well_formed_param (wp ! 0) \<and> v = u_param (wp ! 0)"
proof -
  have ty: "LogisticRegression_WorkloadParameterType = replicate 1 WP_UInt64"
    by (simp add: LogisticRegression_WorkloadParameterType_def)
  show ?thesis
  proof (cases "validate_workload_params LogisticRegression_WorkloadParameterType wp")
    case (Inl e)
    then have "validate_workload_params (replicate 1 WP_UInt64) wp \<noteq> Inr ()" by (simp add: ty)
    then have "\<not> (1 \<le> length wp \<and> well_formed_param (wp ! 0))"
      unfolding validate_uint64_iff by simp
    with Inl show ?thesis by (auto simp: LogisticRegression_fetchVectorSize_def)
  next
    case (Inr u)
    then have "validate_workload_params (replicate 1 WP_UInt64) wp = Inr ()" by (simp add: ty)
    then have ok: "1 \<le> length wp \<and> well_formed_param (wp ! 0)"
      unfolding validate_uint64_iff by simp
    with Inr show ?thesis by (auto simp: LogisticRegression_fetchVectorSize_def vector_at_def)
  qed
qed

lemma all_less_3: "(\<forall>k<3. P k) \<longleftrightarrow> P 0 \<and> P (Suc 0) \<and> P (2::nat)"
proof
  assume "\<forall>k<3. P k" then show "P 0 \<and> P (Suc 0) \<and> P 2" by simp
next
  assume a: "P 0 \<and> P (Suc 0) \<and> P 2"
  show "\<forall>k<3. P k"
  proof (intro allI impI)
    fix k :: nat assume "k < 3"
    then have "k = 0 \<or> k = Suc 0 \<or> k = 2" by arith
    with a show "P k" by auto
  qed
qed

lemma MatrixMultiply_fetchMatrixSizes_iff:
  "MatrixMultiply_fetchMatrixSizes wp = Inr d \<longleftrightarrow>
     3 \<le> length wp \<and> (\<forall>k<3. well_formed_param (wp ! k)) \<and>
     d = ((u_param (wp ! 0), u_param (wp ! 1)), (u_param (wp ! 1), u_param (wp ! 2)))"
proof -
  have ty: "MatrixMultiply_WorkloadParameterType = replicate 3 WP_UInt64"
    by (simp add: MatrixMultiply_WorkloadParameterType_def numeral_3_eq_3)
  show ?thesis
  proof (cases "validate_workload_params MatrixMultiply_WorkloadParameterType wp")
    case (Inl e)
    then have "validate_workload_params (replicate 3 WP_UInt64) wp \<noteq> Inr ()" by (simp add: ty)
    then have "\<not> (3 \<le> length wp \<and> (\<forall>k<3. well_formed_param (wp ! k)))"
      unfolding validate_uint64_iff by simp
    with Inl show ?thesis by (auto simp: MatrixMultiply_fetchMatrixSizes_def)
  next
    case (Inr u)
    then have "validate_workload_params (replicate 3 WP_UInt64) wp = Inr ()" by (simp add: ty)
    then have ok: "3 \<le> length wp \<and> (\<forall>k<3. well_formed_param (wp ! k))"
      unfolding validate_uint64_iff by simp
    then have "3 \<le> length wp" by simp
    then have "0 < length wp" "1 < length wp" "2 < length wp" by arith+
    then have "vector_at wp 0 = Inr (wp ! 0)" "vector_at wp 1 = Inr (wp ! 1)"
      "vector_at wp 2 = Inr (wp ! 2)" unfolding vector_at_def by simp_all
    with Inr ok show ?thesis by (auto simp: MatrixMultiply_fetchMatrixSizes_def)
  qed
qed

lemma DotProduct_match_iff:
  "DotProduct_matchBenchmarkDescriptor name bd wp \<noteq> [] \<longleftrightarrow>
     workload bd = DotProduct \<and> 1 \<le> length wp \<and> well_formed_param (wp ! 0)"
proof (cases "DotProduct_fetchVectorSize wp")
  case (Inl e)
  then have "\<not> (1 \<le> length wp \<and> well_formed_param (wp ! 0))"
    using DotProduct_fetchVectorSize_iff [of wp "u_param (wp ! 0)"] by simp
  with Inl show ?thesis by (auto simp: DotProduct_matchBenchmarkDescriptor_def)
next
  case (Inr v)
  then have "1 \<le> length wp \<and> well_formed_param (wp ! 0)"
    using DotProduct_fetchVectorSize_iff [of wp v] by simp
  with Inr show ?thesis by (simp add: DotProduct_matchBenchmarkDescriptor_def)
qed

lemma LogisticRegression_match_iff:
  "LogisticRegression_matchBenchmarkDescriptor name bd wp \<noteq> [] \<longleftrightarrow>
     workload bd \<in> {LogisticRegression, LogisticRegression_PolyD3,
                    LogisticRegression_PolyD5, LogisticRegression_PolyD7} \<and>
     1 \<le> length wp \<and> well_formed_param (wp ! 0)"
proof (cases "LogisticRegression_fetchVectorSize wp")
  case (Inl e)
  then have "\<not> (1 \<le> length wp \<and> well_formed_param (wp ! 0))"
    using LogisticRegression_fetchVectorSize_iff [of wp "u_param (wp ! 0)"] by simp
  with Inl show ?thesis by (auto simp: LogisticRegression_matchBenchmarkDescriptor_def)
next
  case (Inr v)
  then have "1 \<le> length wp \<and> well_formed_param (wp ! 0)"
    using LogisticRegression_fetchVectorSize_iff [of wp v] by simp
  with Inr show ?thesis by (auto simp: LogisticRegression_matchBenchmarkDescriptor_def)
qed

lemma MatrixMultiply_match_iff:
  "MatrixMultiply_matchBenchmarkDescriptor name bd wp \<noteq> [] \<longleftrightarrow>
     workload bd = MatrixMultiply \<and> 3 \<le> length wp \<and> (\<forall>k<3. well_formed_param (wp ! k))"
proof (cases "MatrixMultiply_fetchMatrixSizes wp")
  case (Inl e)
  then have "\<not> (3 \<le> length wp \<and> (\<forall>k<3. well_formed_param (wp ! k)))"
    using MatrixMultiply_fetchMatrixSizes_iff
      [of wp "((u_param (wp ! 0), u_param (wp ! 1)), (u_param (wp ! 1), u_param (wp ! 2)))"]
    by simp
  with Inl show ?thesis by (auto simp: MatrixMultiply_matchBenchmarkDescriptor_def)
next
  case (Inr d)
  then have "3 \<le> length wp \<and> (\<forall>k<3. well_formed_param (wp ! k))"
    using MatrixMultiply_fetchMatrixSizes_iff [of wp d] by simp
  with Inr show ?thesis by (simp add: MatrixMultiply_matchBenchmarkDescriptor_def)
qed

lemma DotProduct_match_take:
  assumes "1 \<le> length wp"
  shows "DotProduct_matchBenchmarkDescriptor name bd (take 1 wp) =
         DotProduct_matchBenchmarkDescriptor name bd wp"
proof -
  have "length DotProduct_WorkloadParameterType = 1"
    by (simp add: DotProduct_WorkloadParameterType_def)
  with assms have a: "validate_workload_params DotProduct_WorkloadParameterType (take 1 wp) =
      validate_workload_params DotProduct_WorkloadParameterType wp"
    using validate_take [of DotProduct_WorkloadParameterType wp] by simp
  have b: "vector_at (take 1 wp) 0 = vector_at wp 0" by (simp add: vector_at_take)
  have "DotProduct_fetchVectorSize (take 1 wp) = DotProduct_fetchVectorSize wp"
    unfolding DotProduct_fetchVectorSize_def by (simp only: a b)
  then show ?thesis unfolding DotProduct_matchBenchmarkDescriptor_def by (simp only:)
qed

lemma LogisticRegression_match_take:
  assumes "1 \<le> length wp"
  shows "LogisticRegression_matchBenchmarkDescriptor name bd (take 1 wp) =
         LogisticRegression_matchBenchmarkDescriptor name bd wp"
proof -
  have "length LogisticRegression_WorkloadParameterType = 1"
    by (simp add: LogisticRegression_WorkloadParameterType_def)
  with assms have a: "validate_workload_params LogisticRegression_WorkloadParameterType (take 1 wp) =
      validate_workload_params LogisticRegression_WorkloadParameterType wp"
    using validate_take [of LogisticRegression_WorkloadParameterType wp] by simp
  have b: "vector_at (take 1 wp) 0 = vector_at wp 0" by (simp add: vector_at_take)
  have "LogisticRegression_fetchVectorSize (take 1 wp) =
      LogisticRegression_fetchVectorSize wp"
    unfolding LogisticRegression_fetchVectorSize_def by (simp only: a b)
  then show ?thesis unfolding LogisticRegression_matchBenchmarkDescriptor_def by (simp only:)
qed

lemma MatrixMultiply_match_take:
  assumes "3 \<le> length wp"
  shows "MatrixMultiply_matchBenchmarkDescriptor name bd (take 3 wp) =
         MatrixMultiply_matchBenchmarkDescriptor name bd wp"
proof -
  have "length MatrixMultiply_WorkloadParameterType = 3"
    by (simp add: MatrixMultiply_WorkloadParameterType_def)
  with assms have a: "validate_workload_params MatrixMultiply_WorkloadParameterType (take 3 wp) =
      validate_workload_params MatrixMultiply_WorkloadParameterType wp"
    using validate_take [of MatrixMultiply_WorkloadParameterType wp] by simp
  have b: "vector_at (take 3 wp) 0 = vector_at wp 0"
    "vector_at (take 3 wp) 1 = vector_at wp 1" "vector_at (take 3 wp) 2 = vector_at wp 2"
    by (simp_all add: vector_at_take)
  have "MatrixMultiply_fetchMatrixSizes (take 3 wp) =
      MatrixMultiply_fetchMatrixSizes wp"
    unfolding MatrixMultiply_fetchMatrixSizes_def by (simp only: a b)
  then show ?thesis unfolding MatrixMultiply_matchBenchmarkDescriptor_def by (simp only:)
qed

lemma well_formed_param_unat:
  "well_formed_param p \<longleftrightarrow> data_type p = WP_UInt64 \<and> 0 < unat (u_param p)"
  by (simp add: well_formed_param_def unat_gt_0)

text \<open>
  A workload-parameter vector longer than the workload requires is accepted: the
  dot-product matcher, which requires one parameter, names the workload for a
  vector of two.
\<close>

theorem matchBenchmarkDescriptor_arity_counterexample:
  "DotProduct_matchBenchmarkDescriptor ''Dot Product''
      \<lparr>workload = DotProduct, cipher_param_mask = 0, offline_data_count = [0, 0]\<rparr>
      [\<lparr>data_type = WP_UInt64, u_param = 4\<rparr>, \<lparr>data_type = WP_Float64, u_param = 7\<rparr>]
     = ''Dot Product 4'' \<and>
   length [\<lparr>data_type = WP_UInt64, u_param = 4\<rparr>, \<lparr>data_type = WP_Float64, u_param = 7\<rparr>]
     \<noteq> length DotProduct_WorkloadParameterType"
  by code_simp

text \<open>
  Claim C3, amended. For every benchmark descriptor and every workload-parameter
  vector, each of the three workload matchers returns a non-empty workload name if
  and only if the descriptor's workload enum belongs to the matcher's workload,
  the vector has at least as many entries as the workload requires (1 for the dot
  product and the logistic regression, 3 for the matrix multiplication), and each
  of the required leading entries is tagged as an unsigned 64-bit integer and is
  positive; in every other case it returns the empty string.
\<close>

theorem matchBenchmarkDescriptor_accepts_iff:
  "(DotProduct_matchBenchmarkDescriptor name bd wp \<noteq> [] \<longleftrightarrow>
      workload bd = DotProduct \<and> 1 \<le> length wp \<and>
      (\<forall>k<1. data_type (wp ! k) = WP_UInt64 \<and> 0 < unat (u_param (wp ! k)))) \<and>
   (LogisticRegression_matchBenchmarkDescriptor name bd wp \<noteq> [] \<longleftrightarrow>
      workload bd \<in> {LogisticRegression, LogisticRegression_PolyD3,
                     LogisticRegression_PolyD5, LogisticRegression_PolyD7} \<and>
      1 \<le> length wp \<and>
      (\<forall>k<1. data_type (wp ! k) = WP_UInt64 \<and> 0 < unat (u_param (wp ! k)))) \<and>
   (MatrixMultiply_matchBenchmarkDescriptor name bd wp \<noteq> [] \<longleftrightarrow>
      workload bd = MatrixMultiply \<and> 3 \<le> length wp \<and>
      (\<forall>k<3. data_type (wp ! k) = WP_UInt64 \<and> 0 < unat (u_param (wp ! k))))"
  unfolding DotProduct_match_iff LogisticRegression_match_iff MatrixMultiply_match_iff
    well_formed_param_unat by simp

text \<open>
  The theorem at the usual vectors of the three workloads, and at a matrix
  multiplication with a zero dimension, which is rejected.
\<close>

theorem matchBenchmarkDescriptor_accepts_iff_witness:
  "DotProduct_matchBenchmarkDescriptor ''Dot Product''
      \<lparr>workload = DotProduct, cipher_param_mask = 0, offline_data_count = [0, 0]\<rparr>
      [\<lparr>data_type = WP_UInt64, u_param = 1000\<rparr>] \<noteq> [] \<and>
   LogisticRegression_matchBenchmarkDescriptor ''Logistic Regression''
      \<lparr>workload = LogisticRegression_PolyD3, cipher_param_mask = 0, offline_data_count = [0, 0]\<rparr>
      [\<lparr>data_type = WP_UInt64, u_param = 16\<rparr>] \<noteq> [] \<and>
   MatrixMultiply_matchBenchmarkDescriptor ''Matrix Multiplication''
      \<lparr>workload = MatrixMultiply, cipher_param_mask = 0, offline_data_count = [0, 0]\<rparr>
      [\<lparr>data_type = WP_UInt64, u_param = 10\<rparr>, \<lparr>data_type = WP_UInt64, u_param = 9\<rparr>,
       \<lparr>data_type = WP_UInt64, u_param = 8\<rparr>] \<noteq> [] \<and>
   MatrixMultiply_matchBenchmarkDescriptor ''Matrix Multiplication''
      \<lparr>workload = MatrixMultiply, cipher_param_mask = 0, offline_data_count = [0, 0]\<rparr>
      [\<lparr>data_type = WP_UInt64, u_param = 10\<rparr>, \<lparr>data_type = WP_UInt64, u_param = 0\<rparr>,
       \<lparr>data_type = WP_UInt64, u_param = 8\<rparr>] = []"
proof -
  let ?dp = "\<lparr>workload = DotProduct, cipher_param_mask = 0, offline_data_count = [0, 0]\<rparr>"
  let ?lr = "\<lparr>workload = LogisticRegression_PolyD3, cipher_param_mask = 0,
               offline_data_count = [0, 0]\<rparr>"
  let ?mm = "\<lparr>workload = MatrixMultiply, cipher_param_mask = 0, offline_data_count = [0, 0]\<rparr>"
  let ?p = "\<lambda>n. \<lparr>data_type = WP_UInt64, u_param = n\<rparr>"
  note t1 = matchBenchmarkDescriptor_accepts_iff [of "''Dot Product''" ?dp "[?p 1000]", THEN conjunct1]
  note t2 = matchBenchmarkDescriptor_accepts_iff [of "''Logistic Regression''" ?lr "[?p 16]",
              THEN conjunct2, THEN conjunct1]
  note t3 = matchBenchmarkDescriptor_accepts_iff [of "''Matrix Multiplication''" ?mm
              "[?p 10, ?p 9, ?p 8]", THEN conjunct2, THEN conjunct2]
  note t4 = matchBenchmarkDescriptor_accepts_iff [of "''Matrix Multiplication''" ?mm
              "[?p 10, ?p 0, ?p 8]", THEN conjunct2, THEN conjunct2]
  have 1: "DotProduct_matchBenchmarkDescriptor ''Dot Product'' ?dp [?p 1000] \<noteq> []"
    unfolding t1 by simp
  have 2: "LogisticRegression_matchBenchmarkDescriptor ''Logistic Regression'' ?lr [?p 16] \<noteq> []"
    unfolding t2 by simp
  have 3: "MatrixMultiply_matchBenchmarkDescriptor ''Matrix Multiplication'' ?mm
             [?p 10, ?p 9, ?p 8] \<noteq> []"
    unfolding t3 all_less_3 by simp
  have 4: "\<not> MatrixMultiply_matchBenchmarkDescriptor ''Matrix Multiplication'' ?mm
             [?p 10, ?p 0, ?p 8] \<noteq> []"
    unfolding t4 all_less_3 by simp
  from 1 2 3 4 show ?thesis by simp
qed

text \<open>
  Claim C10. For each of the three workload matchers and a descriptor of the
  matcher's workload: a workload-parameter vector with more entries than the
  workload's parameter count whose leading required entries are well-typed and
  positive is accepted with a non-empty name, the same name as for the vector cut
  to the required entries (the extra entries are ignored); a vector with fewer
  entries than required is rejected with the empty string; and when the required
  entries that are present are well-typed and positive, the vector is rejected only
  if it has fewer entries than required.
\<close>

theorem matchBenchmarkDescriptor_extra_params:
  "(workload bd = DotProduct \<longrightarrow>
      (1 < length wp \<and> (\<forall>k<1. well_formed_param (wp ! k)) \<longrightarrow>
         DotProduct_matchBenchmarkDescriptor name bd wp \<noteq> [] \<and>
         DotProduct_matchBenchmarkDescriptor name bd wp =
           DotProduct_matchBenchmarkDescriptor name bd (take 1 wp)) \<and>
      (length wp < 1 \<longrightarrow> DotProduct_matchBenchmarkDescriptor name bd wp = []) \<and>
      ((\<forall>k. k < 1 \<and> k < length wp \<longrightarrow> well_formed_param (wp ! k)) \<longrightarrow>
         (DotProduct_matchBenchmarkDescriptor name bd wp = [] \<longleftrightarrow> length wp < 1))) \<and>
   (workload bd \<in> {LogisticRegression, LogisticRegression_PolyD3,
                   LogisticRegression_PolyD5, LogisticRegression_PolyD7} \<longrightarrow>
      (1 < length wp \<and> (\<forall>k<1. well_formed_param (wp ! k)) \<longrightarrow>
         LogisticRegression_matchBenchmarkDescriptor name bd wp \<noteq> [] \<and>
         LogisticRegression_matchBenchmarkDescriptor name bd wp =
           LogisticRegression_matchBenchmarkDescriptor name bd (take 1 wp)) \<and>
      (length wp < 1 \<longrightarrow> LogisticRegression_matchBenchmarkDescriptor name bd wp = []) \<and>
      ((\<forall>k. k < 1 \<and> k < length wp \<longrightarrow> well_formed_param (wp ! k)) \<longrightarrow>
         (LogisticRegression_matchBenchmarkDescriptor name bd wp = [] \<longleftrightarrow> length wp < 1))) \<and>
   (workload bd = MatrixMultiply \<longrightarrow>
      (3 < length wp \<and> (\<forall>k<3. well_formed_param (wp ! k)) \<longrightarrow>
         MatrixMultiply_matchBenchmarkDescriptor name bd wp \<noteq> [] \<and>
         MatrixMultiply_matchBenchmarkDescriptor name bd wp =
           MatrixMultiply_matchBenchmarkDescriptor name bd (take 3 wp)) \<and>
      (length wp < 3 \<longrightarrow> MatrixMultiply_matchBenchmarkDescriptor name bd wp = []) \<and>
      ((\<forall>k. k < 3 \<and> k < length wp \<longrightarrow> well_formed_param (wp ! k)) \<longrightarrow>
         (MatrixMultiply_matchBenchmarkDescriptor name bd wp = [] \<longleftrightarrow> length wp < 3)))"
proof (intro conjI impI)
  assume w: "workload bd = DotProduct"
  { assume a: "1 < length wp \<and> (\<forall>k<1. well_formed_param (wp ! k))"
    then show "DotProduct_matchBenchmarkDescriptor name bd wp \<noteq> []"
      using w DotProduct_match_iff [of name bd wp] by simp
    from a have "1 \<le> length wp" by simp
    then show "DotProduct_matchBenchmarkDescriptor name bd wp =
           DotProduct_matchBenchmarkDescriptor name bd (take 1 wp)"
      by (rule DotProduct_match_take [symmetric]) }
  { assume "length wp < 1"
    then show "DotProduct_matchBenchmarkDescriptor name bd wp = []"
      using DotProduct_match_iff [of name bd wp] by simp }
  { assume a: "\<forall>k. k < 1 \<and> k < length wp \<longrightarrow> well_formed_param (wp ! k)"
    show "DotProduct_matchBenchmarkDescriptor name bd wp = [] \<longleftrightarrow> length wp < 1"
    proof (cases "length wp < 1")
      case True
      then show ?thesis using DotProduct_match_iff [of name bd wp] by simp
    next
      case False
      then have l: "1 \<le> length wp" by arith
      then have "0 < (1::nat) \<and> 0 < length wp" by arith
      with a have "well_formed_param (wp ! 0)" by blast
      with False l w show ?thesis using DotProduct_match_iff [of name bd wp] by simp
    qed }
next
  assume w: "workload bd \<in> {LogisticRegression, LogisticRegression_PolyD3,
                   LogisticRegression_PolyD5, LogisticRegression_PolyD7}"
  { assume a: "1 < length wp \<and> (\<forall>k<1. well_formed_param (wp ! k))"
    then show "LogisticRegression_matchBenchmarkDescriptor name bd wp \<noteq> []"
      using w LogisticRegression_match_iff [of name bd wp] by simp
    from a have "1 \<le> length wp" by simp
    then show "LogisticRegression_matchBenchmarkDescriptor name bd wp =
           LogisticRegression_matchBenchmarkDescriptor name bd (take 1 wp)"
      by (rule LogisticRegression_match_take [symmetric]) }
  { assume "length wp < 1"
    then show "LogisticRegression_matchBenchmarkDescriptor name bd wp = []"
      using LogisticRegression_match_iff [of name bd wp] by simp }
  { assume a: "\<forall>k. k < 1 \<and> k < length wp \<longrightarrow> well_formed_param (wp ! k)"
    show "LogisticRegression_matchBenchmarkDescriptor name bd wp = [] \<longleftrightarrow> length wp < 1"
    proof (cases "length wp < 1")
      case True
      then show ?thesis using LogisticRegression_match_iff [of name bd wp] by simp
    next
      case False
      then have l: "1 \<le> length wp" by arith
      then have "0 < (1::nat) \<and> 0 < length wp" by arith
      with a have "well_formed_param (wp ! 0)" by blast
      with False l w show ?thesis using LogisticRegression_match_iff [of name bd wp] by simp
    qed }
next
  assume w: "workload bd = MatrixMultiply"
  { assume a: "3 < length wp \<and> (\<forall>k<3. well_formed_param (wp ! k))"
    then show "MatrixMultiply_matchBenchmarkDescriptor name bd wp \<noteq> []"
      using w MatrixMultiply_match_iff [of name bd wp] by simp
    from a have "3 \<le> length wp" by simp
    then show "MatrixMultiply_matchBenchmarkDescriptor name bd wp =
           MatrixMultiply_matchBenchmarkDescriptor name bd (take 3 wp)"
      by (rule MatrixMultiply_match_take [symmetric]) }
  { assume "length wp < 3"
    then show "MatrixMultiply_matchBenchmarkDescriptor name bd wp = []"
      using MatrixMultiply_match_iff [of name bd wp] by simp }
  { assume a: "\<forall>k. k < 3 \<and> k < length wp \<longrightarrow> well_formed_param (wp ! k)"
    show "MatrixMultiply_matchBenchmarkDescriptor name bd wp = [] \<longleftrightarrow> length wp < 3"
    proof (cases "length wp < 3")
      case True
      then show ?thesis using MatrixMultiply_match_iff [of name bd wp] by simp
    next
      case False
      with a have "\<forall>k<3. well_formed_param (wp ! k)" by simp
      with False w show ?thesis using MatrixMultiply_match_iff [of name bd wp] by simp
    qed }
qed

text \<open>
  The theorem at the dot product: a vector of two entries is accepted as its first
  entry alone is, the empty vector is rejected.
\<close>

theorem matchBenchmarkDescriptor_extra_params_witness:
  "DotProduct_matchBenchmarkDescriptor ''Dot Product''
      \<lparr>workload = DotProduct, cipher_param_mask = 0, offline_data_count = [0, 0]\<rparr>
      [\<lparr>data_type = WP_UInt64, u_param = 4\<rparr>, \<lparr>data_type = WP_Float64, u_param = 7\<rparr>] \<noteq> [] \<and>
   DotProduct_matchBenchmarkDescriptor ''Dot Product''
      \<lparr>workload = DotProduct, cipher_param_mask = 0, offline_data_count = [0, 0]\<rparr>
      [\<lparr>data_type = WP_UInt64, u_param = 4\<rparr>, \<lparr>data_type = WP_Float64, u_param = 7\<rparr>] =
   DotProduct_matchBenchmarkDescriptor ''Dot Product''
      \<lparr>workload = DotProduct, cipher_param_mask = 0, offline_data_count = [0, 0]\<rparr>
      (take 1 [\<lparr>data_type = WP_UInt64, u_param = 4\<rparr>, \<lparr>data_type = WP_Float64, u_param = 7\<rparr>]) \<and>
   DotProduct_matchBenchmarkDescriptor ''Dot Product''
      \<lparr>workload = DotProduct, cipher_param_mask = 0, offline_data_count = [0, 0]\<rparr> [] = []"
proof -
  let ?dp = "\<lparr>workload = DotProduct, cipher_param_mask = 0, offline_data_count = [0, 0]\<rparr>"
  let ?wp = "[\<lparr>data_type = WP_UInt64, u_param = 4\<rparr>, \<lparr>data_type = WP_Float64, u_param = 7\<rparr>]"
  have w: "workload ?dp = DotProduct" by simp
  have a: "1 < length ?wp \<and> (\<forall>k<1. well_formed_param (?wp ! k))"
    by (simp add: well_formed_param_def)
  have e: "length ([] :: WorkloadParam list) < 1" by simp
  note t = matchBenchmarkDescriptor_extra_params [of ?dp _ "''Dot Product''", THEN conjunct1, THEN mp, OF w]
  from t [of ?wp, THEN conjunct1, THEN mp, OF a]
       t [of "[]", THEN conjunct2, THEN conjunct1, THEN mp, OF e]
  show ?thesis by blast
qed

section \<open>The rounding of the floating-point model\<close>

text \<open>
  The rounding is the one intended: \<open>floor_log2\<close> is the binary exponent, the
  rounded value is a multiple of the unit in the last place with a significand of
  at most \<open>p\<close> bits, it is within half a unit of the exact value, and an
  integer of fewer than \<open>p\<close> bits is not changed.
\<close>

lemma pow2_powi: "pow2 e = 2 powi e"
  by (simp add: pow2_def power_int_def field_simps)

lemma pow2_pos: "0 < pow2 e"
  by (simp add: pow2_powi)

lemma pow2_add: "pow2 (i + j) = pow2 i * pow2 j"
  by (simp add: pow2_powi power_int_add)

lemma pow2_mono: "i \<le> j \<Longrightarrow> pow2 i \<le> pow2 j"
  by (simp add: pow2_powi power_int_increasing)

lemma pow2_nat: "pow2 (int n) = 2 ^ n"
  by (simp add: pow2_def)

lemma round_half_even_error: "\<bar>of_int (round_half_even q) - q\<bar> \<le> 1 / 2"
proof -
  let ?f = "\<lfloor>q\<rfloor>"
  let ?d = "q - of_int ?f"
  have d: "0 \<le> ?d" "?d < 1" by linarith+
  show ?thesis
  proof (cases "?d < 1 / 2")
    case True
    then have "round_half_even q = ?f" by (simp add: round_half_even_def Let_def)
    with True d show ?thesis by simp
  next
    case False
    show ?thesis
    proof (cases "1 / 2 < ?d")
      case True
      then have "round_half_even q = ?f + 1" using False by (simp add: round_half_even_def Let_def)
      with True d show ?thesis by simp
    next
      case F2: False
      with False have e: "?d = 1 / 2" by simp
      have "round_half_even q = ?f \<or> round_half_even q = ?f + 1"
        using False F2 by (simp add: round_half_even_def Let_def)
      with e show ?thesis by auto
    qed
  qed
qed

lemma round_half_even_int: "round_half_even (of_int n) = n"
  by (simp add: round_half_even_def)

lemma floor_log2_bounds:
  assumes "x \<noteq> 0"
  shows "pow2 (floor_log2 x) \<le> \<bar>x\<bar> \<and> \<bar>x\<bar> < pow2 (floor_log2 x + 1)"
proof -
  obtain a b where q: "quotient_of \<bar>x\<bar> = (a, b)" by (cases "quotient_of \<bar>x\<bar>")
  then have b: "0 < b" by (rule quotient_of_denom_pos)
  have x: "\<bar>x\<bar> = of_int a / of_int b" using q by (rule quotient_of_div)
  have "0 < \<bar>x\<bar>" using assms by simp
  then have a: "0 < a" using x b by (simp add: zero_less_divide_iff)
  let ?la = "bitlen a" and ?lb = "bitlen b"
  have la: "1 \<le> ?la" and lb: "1 \<le> ?lb" using a b by (simp_all add: bitlen_alt_def)
  from bitlen_bounds [OF a] have a1: "(2::int) ^ nat (?la - 1) \<le> a" and a2: "a < 2 ^ nat ?la"
    by simp_all
  from bitlen_bounds [OF b] have b1: "(2::int) ^ nat (?lb - 1) \<le> b" and b2: "b < 2 ^ nat ?lb"
    by simp_all
  have ra1: "pow2 (?la - 1) \<le> of_int a"
  proof -
    have "pow2 (?la - 1) = of_int (2 ^ nat (?la - 1))" using la by (simp add: pow2_def)
    also have "\<dots> \<le> of_int a" using a1 by (simp only: of_int_le_iff)
    finally show ?thesis .
  qed
  have ra2: "of_int a < pow2 ?la"
  proof -
    have "(of_int a :: rat) < of_int (2 ^ nat ?la)" using a2 by (simp only: of_int_less_iff)
    also have "\<dots> = pow2 ?la" using la by (simp add: pow2_def)
    finally show ?thesis .
  qed
  have rb1: "pow2 (?lb - 1) \<le> of_int b"
  proof -
    have "pow2 (?lb - 1) = of_int (2 ^ nat (?lb - 1))" using lb by (simp add: pow2_def)
    also have "\<dots> \<le> of_int b" using b1 by (simp only: of_int_le_iff)
    finally show ?thesis .
  qed
  have rb2: "of_int b < pow2 ?lb"
  proof -
    have "(of_int b :: rat) < of_int (2 ^ nat ?lb)" using b2 by (simp only: of_int_less_iff)
    also have "\<dots> = pow2 ?lb" using lb by (simp add: pow2_def)
    finally show ?thesis .
  qed
  let ?k = "?la - ?lb"
  have bpos: "(0::rat) < of_int b" using b by simp
  have lower: "pow2 (?k - 1) \<le> \<bar>x\<bar>"
  proof -
    have "pow2 (?k - 1) * of_int b \<le> pow2 (?k - 1) * pow2 ?lb"
      using rb2 pow2_pos [of "?k - 1"] by (simp add: less_imp_le)
    also have "\<dots> = pow2 (?la - 1)" by (simp add: pow2_add [symmetric])
    also have "\<dots> \<le> of_int a" by (rule ra1)
    finally show ?thesis unfolding x using bpos by (simp add: pos_le_divide_eq)
  qed
  have upper: "\<bar>x\<bar> < pow2 (?k + 1)"
  proof -
    have "of_int a < pow2 ?la" by (rule ra2)
    also have "\<dots> = pow2 (?k + 1) * pow2 (?lb - 1)" by (simp add: pow2_add [symmetric])
    also have "\<dots> \<le> pow2 (?k + 1) * of_int b"
      using rb1 pow2_pos [of "?k + 1"] by simp
    finally show ?thesis unfolding x using bpos by (simp add: pos_divide_less_eq)
  qed
  show ?thesis
  proof (cases "pow2 ?k \<le> \<bar>x\<bar>")
    case True
    then have "floor_log2 x = ?k" by (simp add: floor_log2_def q Let_def)
    with True upper show ?thesis by simp
  next
    case False
    then have "floor_log2 x = ?k - 1" by (simp add: floor_log2_def q Let_def)
    with False lower show ?thesis by simp
  qed
qed

lemma fround_error:
  assumes "x \<noteq> 0"
  shows "\<bar>fround p emin x - x\<bar> \<le> pow2 (max (floor_log2 x) emin - (int p - 1)) / 2"
proof -
  let ?e = "max (floor_log2 x) emin - (int p - 1)"
  let ?m = "round_half_even (x / pow2 ?e)"
  have pe: "0 < pow2 ?e" by (rule pow2_pos)
  have f: "fround p emin x = of_int ?m * pow2 ?e"
    using assms by (simp add: fround_def Let_def)
  have "fround p emin x - x = (of_int ?m - x / pow2 ?e) * pow2 ?e"
    using pe by (simp add: f field_simps)
  then have "\<bar>fround p emin x - x\<bar> = \<bar>of_int ?m - x / pow2 ?e\<bar> * pow2 ?e"
    using pe by (simp add: abs_mult)
  also have "\<dots> \<le> (1 / 2) * pow2 ?e"
    using round_half_even_error [of "x / pow2 ?e"] pe by (intro mult_right_mono) simp_all
  finally show ?thesis by simp
qed

lemma round_half_even_bound:
  assumes "\<bar>q\<bar> \<le> of_int N"
  shows "\<bar>round_half_even q\<bar> \<le> N"
proof -
  have "\<bar>(of_int (round_half_even q) :: rat)\<bar> \<le> \<bar>of_int (round_half_even q) - q\<bar> + \<bar>q\<bar>"
    by simp
  also have "\<dots> \<le> 1 / 2 + of_int N"
    using round_half_even_error [of q] assms by simp
  finally have "(of_int \<bar>round_half_even q\<bar> :: rat) < of_int (N + 1)" by simp
  then have "\<bar>round_half_even q\<bar> < N + 1" by (simp only: of_int_less_iff)
  then show ?thesis by simp
qed

lemma fround_mantissa:
  assumes "x \<noteq> 0" "0 < p"
  shows "\<exists>m. fround p emin x = of_int m * pow2 (max (floor_log2 x) emin - (int p - 1)) \<and>
             \<bar>m\<bar> \<le> 2 ^ p"
proof -
  let ?e = "max (floor_log2 x) emin - (int p - 1)"
  let ?m = "round_half_even (x / pow2 ?e)"
  have pe: "0 < pow2 ?e" by (rule pow2_pos)
  have f: "fround p emin x = of_int ?m * pow2 ?e"
    using assms by (simp add: fround_def Let_def)
  have "\<bar>x\<bar> < pow2 (floor_log2 x + 1)" using floor_log2_bounds [OF assms(1)] by simp
  also have "\<dots> \<le> pow2 (?e + int p)" by (rule pow2_mono) simp
  also have "\<dots> = pow2 ?e * 2 ^ p" by (simp only: pow2_add pow2_nat)
  finally have "\<bar>x\<bar> / pow2 ?e < 2 ^ p" using pe by (simp add: pos_divide_less_eq mult.commute)
  then have "\<bar>x / pow2 ?e\<bar> \<le> of_int (2 ^ p)" using pe by (simp add: abs_divide less_imp_le)
  then have "\<bar>?m\<bar> \<le> 2 ^ p" by (rule round_half_even_bound)
  with f show ?thesis by blast
qed

lemma fround_exact:
  assumes "\<bar>n\<bar> < 2 ^ p" "0 < p"
  shows "fround p (- int k) (of_int n) = of_int n"
proof (cases "n = 0")
  case True then show ?thesis by (simp add: fround_def)
next
  case False
  let ?x = "of_int n :: rat"
  have x0: "?x \<noteq> 0" using False by simp
  let ?e = "max (floor_log2 ?x) (- int k) - (int p - 1)"
  have "pow2 (floor_log2 ?x) \<le> \<bar>?x\<bar>" using floor_log2_bounds [OF x0] by simp
  also have "\<bar>?x\<bar> < of_int (2 ^ p)" using assms(1) by (simp only: of_int_abs [symmetric] of_int_less_iff)
  also have "\<dots> = pow2 (int p)" by (simp add: pow2_nat)
  finally have "floor_log2 ?x < int p"
    using pow2_mono [of "int p" "floor_log2 ?x"] by (cases "floor_log2 ?x < int p") simp_all
  then have e: "?e \<le> 0" using assms(2) by simp
  then obtain j where j: "?e = - int j" by (metis nonpos_int_cases)
  have q: "?x / pow2 ?e = of_int (n * 2 ^ j)" unfolding j by (simp add: pow2_def)
  have "fround p (- int k) ?x = of_int (round_half_even (?x / pow2 ?e)) * pow2 ?e"
    using x0 by (simp add: fround_def Let_def)
  also have "\<dots> = of_int (n * 2 ^ j) * pow2 ?e" by (simp only: q round_half_even_int)
  also have "\<dots> = ?x" unfolding j by (simp add: pow2_def)
  finally show ?thesis .
qed

section \<open>The sigmoid of degree 3 and the logistic regression\<close>

lemma poly3_values:
  "poly3 = [1 / 2, 5408643008486871 / 36028797018963968, 0,
            - (918306482018981 / 576460752303423488)]"
  by code_simp

lemma evaluatePolynomial_4:
  "evaluatePolynomial op_add op_mul x [c0, c1, c2, c3] =
     Some (op_add (op_mul (op_add (op_mul (op_add (op_mul c3 x) c2) x) c1) x) c0)"
  by (simp add: evaluatePolynomial_def)

lemma sigmoid3_horner:
  "sigmoid3 x =
     f64_add (f64_mul (f64_add (f64_mul (f64_add (f64_mul
        (f64_round (- (15930078125 / 10 ^ 13))) x)
        (f64_round 0)) x)
        (f64_round (15012 / 100000))) x)
        (f64_round (5 / 10))"
  unfolding sigmoid3_def poly3_def list.map evaluatePolynomial_4 option.sel ..

lemma sigmoid3_at_0: "sigmoid3 0 = 1 / 2"
  by code_simp

lemma sigmoid3_at_2: "sigmoid3 2 = 7093132821361559 / 9007199254740992"
  by code_simp

lemma f64_round_target: "f64_round (7874959375 / 10 ^ 10) = 7093132821361559 / 9007199254740992"
  by code_simp

lemma f64_round_claimed: "f64_round (78749125 / 10 ^ 8) = 1773272650028763 / 2251799813685248"
  by code_simp

text \<open>
  At \<open>x = 2\<close> the polynomial does not yield 0.78749125: the \<open>double\<close> result
  differs from the \<open>double\<close> nearest to 0.78749125, by more than the tolerance
  \<open>1e-10\<close> of the scenario, and the sum \<open>0.5 + 0.15012 * 2 +
  (-0.0015930078125) * 8\<close> that the claim equates with 0.78749125 is another
  number.
\<close>

theorem sigmoid3_at_2_counterexample:
  "sigmoid3 2 \<noteq> f64_round (78749125 / 10 ^ 8) \<and>
   1 / 10 ^ 10 < \<bar>sigmoid3 2 - 78749125 / 10 ^ 8\<bar> \<and>
   (5 / 10 + 15012 / 100000 * 2 + (- (15930078125 / 10 ^ 13)) * 8 :: rat) \<noteq> 78749125 / 10 ^ 8"
  unfolding sigmoid3_at_2 f64_round_claimed by simp

lemma inference_zero_f64:
  "logisticRegressionInference exp_unused Float64 PD3 [1, 1] 0 [0, 0] 2 = Inr (Some (1 / 2))"
  by code_simp

lemma inference_zero_f32:
  "logisticRegressionInference exp_unused Float32 PD3 [1, 1] 0 [0, 0] 2 = Inr (Some (1 / 2))"
  by code_simp

lemma exact_value_at_2:
  "(5 / 10 + 15012 / 100000 * 2 + (- (15930078125 / 10 ^ 13)) * 8 :: rat) = 7874959375 / 10 ^ 10"
  by simp

text \<open>
  Claim C1, amended. For the logistic regression of polynomial degree 3 the
  ground-truth sigmoid is the polynomial with the ascending-power coefficients
  \<open>[0.5, 0.15012, 0, -0.0015930078125]\<close> (each the nearest \<open>double\<close>)
  evaluated by Horner's rule in \<open>double\<close>; evaluating it at \<open>x = 0\<close> yields
  exactly 0.5, and so does the ground truth of both float types for \<open>w = [1,1]\<close>,
  \<open>b = 0\<close>, \<open>x = [0,0]\<close>; at \<open>x = 2\<close> in \<open>double\<close> it yields the
  \<open>double\<close> nearest to \<open>0.5 + 0.15012 * 2 + (-0.0015930078125) * 8 =
  0.7874959375\<close>, which is the ground truth for \<open>w = [1,1]\<close>, \<open>b = 0\<close>,
  \<open>x = [1,1]\<close>.
\<close>

theorem sigmoid3_spec:
  "sigmoid3 x =
     f64_add (f64_mul (f64_add (f64_mul (f64_add (f64_mul
        (f64_round (- (15930078125 / 10 ^ 13))) x)
        (f64_round 0)) x)
        (f64_round (15012 / 100000))) x)
        (f64_round (5 / 10)) \<and>
   sigmoid3 0 = 1 / 2 \<and>
   logisticRegressionInference exp_unused Float64 PD3 [1, 1] 0 [0, 0] 2 = Inr (Some (1 / 2)) \<and>
   logisticRegressionInference exp_unused Float32 PD3 [1, 1] 0 [0, 0] 2 = Inr (Some (1 / 2)) \<and>
   sigmoid3 2 = f64_round (5 / 10 + 15012 / 100000 * 2 + (- (15930078125 / 10 ^ 13)) * 8) \<and>
   (5 / 10 + 15012 / 100000 * 2 + (- (15930078125 / 10 ^ 13)) * 8 :: rat) = 7874959375 / 10 ^ 10 \<and>
   logisticRegressionInference exp_unused Float64 PD3 [1, 1] 0 [1, 1] 2 =
     Inr (Some (f64_round (7874959375 / 10 ^ 10)))"
proof (intro conjI)
  show "sigmoid3 x =
     f64_add (f64_mul (f64_add (f64_mul (f64_add (f64_mul
        (f64_round (- (15930078125 / 10 ^ 13))) x)
        (f64_round 0)) x)
        (f64_round (15012 / 100000))) x)
        (f64_round (5 / 10))" by (rule sigmoid3_horner)
  show "sigmoid3 0 = 1 / 2" by (rule sigmoid3_at_0)
  show "logisticRegressionInference exp_unused Float64 PD3 [1, 1] 0 [0, 0] 2 = Inr (Some (1 / 2))"
    by (rule inference_zero_f64)
  show "logisticRegressionInference exp_unused Float32 PD3 [1, 1] 0 [0, 0] 2 = Inr (Some (1 / 2))"
    by (rule inference_zero_f32)
  show "sigmoid3 2 = f64_round (5 / 10 + 15012 / 100000 * 2 + (- (15930078125 / 10 ^ 13)) * 8)"
    unfolding exact_value_at_2 f64_round_target by (rule sigmoid3_at_2)
  show "(5 / 10 + 15012 / 100000 * 2 + (- (15930078125 / 10 ^ 13)) * 8 :: rat) = 7874959375 / 10 ^ 10"
    by (rule exact_value_at_2)
  show "logisticRegressionInference exp_unused Float64 PD3 [1, 1] 0 [1, 1] 2 =
     Inr (Some (f64_round (7874959375 / 10 ^ 10)))"
    unfolding f64_round_target by code_simp
qed


text \<open>The Horner form at \<open>x = 2\<close>, evaluated.\<close>

theorem sigmoid3_spec_witness:
  "f64_add (f64_mul (f64_add (f64_mul (f64_add (f64_mul
        (f64_round (- (15930078125 / 10 ^ 13))) 2)
        (f64_round 0)) 2)
        (f64_round (15012 / 100000))) 2)
        (f64_round (5 / 10)) = 7093132821361559 / 9007199254740992"
  using sigmoid3_spec [of 2, THEN conjunct1] sigmoid3_at_2 by simp

lemma logisticRegressionInference_T_unfold:
  "feature_count \<le> length p_w \<Longrightarrow> feature_count \<le> length p_input \<Longrightarrow>
   logisticRegressionInference_T std_exp round_T cast_T poly_deg p_w b p_input feature_count =
     Some (cast_T (sigma std_exp poly_deg
        (round_T (inner_product (\<lambda>x y. round_T (x + y)) (\<lambda>x y. round_T (x * y))
                         (take feature_count p_w) (take feature_count p_input) 0 + b))))"
  by (cases poly_deg) (simp_all add: logisticRegressionInference_T_def sigma_def Let_def)

lemma f64_ops: "(\<lambda>x y. f64_round (x + y)) = f64_add" "(\<lambda>x y. f64_round (x * y)) = f64_mul"
  by (intro ext, simp add: f64_add_def)  (intro ext, simp add: f64_mul_def)

lemma f32_ops: "(\<lambda>x y. f32_round (x + y)) = f32_add" "(\<lambda>x y. f32_round (x * y)) = f32_mul"
  by (intro ext, simp add: f32_add_def)  (intro ext, simp add: f32_mul_def)

text \<open>
  For \<open>float\<close> the ground truth is not the whole computation in \<open>double\<close>
  cast at the end: with \<open>w = [0.1f, 0.3f]\<close>, \<open>b = 0\<close> and
  \<open>x = [0.1f, 0.7f]\<close> the degree-3 ground truth of the source is
  \<open>8942415 / 2^24\<close>, and the whole computation in \<open>double\<close> cast at the end
  gives \<open>8942414 / 2^24\<close>.
\<close>

theorem logisticRegressionInference_f32_counterexample:
  "logisticRegressionInference exp_unused Float32 PD3
       [f32_round (1 / 10), f32_round (3 / 10)] 0 [f32_round (1 / 10), f32_round (7 / 10)] 2
     = Inr (Some (8942415 / 16777216)) \<and>
   logreg_in_f64 exp_unused Float32 PD3
       [f32_round (1 / 10), f32_round (3 / 10)] 0 [f32_round (1 / 10), f32_round (7 / 10)]
     = 4471207 / 8388608"
  by code_simp

text \<open>
  Claim C2, amended. For every variant of the logistic regression (true sigmoid
  and the polynomials of degree 3, 5 and 7) and buffers of at least
  \<open>feature_count\<close> elements: for the data type \<open>double\<close> the ground truth
  is the whole computation \<open>sigma (w . x + b)\<close> in \<open>double\<close>; for the data
  type \<open>float\<close> the inner product and the addition of the bias are accumulated
  in \<open>float\<close>, the sigmoid of that \<open>float\<close> value is computed in
  \<open>double\<close>, and the result is cast to \<open>float\<close>.
\<close>

theorem logisticRegressionInference_casts:
  "feature_count \<le> length p_w \<and> feature_count \<le> length p_input \<longrightarrow>
   logisticRegressionInference std_exp Float64 poly_deg p_w b p_input feature_count =
     Inr (Some (logreg_in_f64 std_exp Float64 poly_deg
                  (take feature_count p_w) b (take feature_count p_input))) \<and>
   logisticRegressionInference std_exp Float32 poly_deg p_w b p_input feature_count =
     Inr (Some (f32_round (sigma std_exp poly_deg
        (f32_add (inner_product f32_add f32_mul
                    (take feature_count p_w) (take feature_count p_input) 0) b))))"
proof (intro impI conjI)
  assume a: "feature_count \<le> length p_w \<and> feature_count \<le> length p_input"
  then have l: "feature_count \<le> length p_w" "feature_count \<le> length p_input" by simp_all
  show "logisticRegressionInference std_exp Float64 poly_deg p_w b p_input feature_count =
     Inr (Some (logreg_in_f64 std_exp Float64 poly_deg
                  (take feature_count p_w) b (take feature_count p_input)))"
    by (simp add: logisticRegressionInference_def logisticRegressionInference_T_unfold [OF l]
          logreg_in_f64_def cast_to_def f64_ops f64_add_def [symmetric])
  show "logisticRegressionInference std_exp Float32 poly_deg p_w b p_input feature_count =
     Inr (Some (f32_round (sigma std_exp poly_deg
        (f32_add (inner_product f32_add f32_mul
                    (take feature_count p_w) (take feature_count p_input) 0) b))))"
    by (simp add: logisticRegressionInference_def logisticRegressionInference_T_unfold [OF l]
          f32_ops f32_add_def [symmetric])
qed

text \<open>The theorem at the second input of the scenario of degree 3.\<close>

theorem logisticRegressionInference_casts_witness:
  "(2::nat) \<le> length [1, 1 :: rat] \<and> (2::nat) \<le> length [1, 1 :: rat] \<and>
   logisticRegressionInference exp_unused Float64 PD3 [1, 1] 0 [1, 1] 2 =
     Inr (Some (logreg_in_f64 exp_unused Float64 PD3 (take 2 [1, 1]) 0 (take 2 [1, 1]))) \<and>
   logreg_in_f64 exp_unused Float64 PD3 [1, 1] 0 [1, 1] = 7093132821361559 / 9007199254740992"
proof -
  have a: "(2::nat) \<le> length [1, 1 :: rat] \<and> (2::nat) \<le> length [1, 1 :: rat]" by simp
  have e: "logreg_in_f64 exp_unused Float64 PD3 [1, 1] 0 [1, 1] = 7093132821361559 / 9007199254740992"
    by code_simp
  from logisticRegressionInference_casts [of 2 "[1, 1]" "[1, 1]" exp_unused PD3 0, THEN mp, OF a,
         THEN conjunct1] a e
  show ?thesis by (intro conjI) simp_all
qed

section \<open>The dot product and its data generator\<close>

lemma zip_take_nth:
  "n \<le> length a \<Longrightarrow> n \<le> length b \<Longrightarrow>
   zip (take n a) (take n b) = map (\<lambda>i. (a ! i, b ! i)) [0..<n]"
  by (rule nth_equalityI) simp_all

lemma inner_product_nth:
  assumes "n \<le> length a" "n \<le> length b"
  shows "inner_product op_add op_mul (take n a) (take n b) z =
         foldl (\<lambda>acc i. op_add acc (op_mul (a ! i) (b ! i))) z [0..<n]"
  unfolding inner_product_def zip_take_nth [OF assms] foldl_map by simp

lemma vectorDotProduct_T_eq:
  assumes "n \<le> length a" "n \<le> length b"
  shows "vectorDotProduct_T op_add op_mul z a b n =
         Some (foldl (\<lambda>acc i. op_add acc (op_mul (a ! i) (b ! i))) z [0..<n])"
  using assms by (simp add: vectorDotProduct_T_def inner_product_nth)

lemma fp_result_small:
  assumes "2 ^ p \<le> mx" "\<bar>m\<bar> < 2 ^ p"
  shows "fp_result mx (of_int m) = Finite (of_int m)"
proof -
  have "\<bar>(of_int m :: rat)\<bar> < of_int (2 ^ p)"
    using assms(2) by (simp only: of_int_abs [symmetric] of_int_less_iff)
  then have "\<bar>(of_int m :: rat)\<bar> < mx" using assms(1) by simp
  then show ?thesis by (simp add: fp_result_def abs_less_iff)
qed

lemma fp_exact_accumulate:
  fixes xs ys :: "int list"
  assumes p: "0 < p" and mx: "2 ^ p \<le> mx"
    and small: "(\<Sum>i<n. \<bar>xs ! i * ys ! i\<bar>) < 2 ^ p"
  shows "foldl (\<lambda>acc i. fp_add (fround p (- int k)) mx acc
                    (fp_mul (fround p (- int k)) mx
                       (Finite (of_int (xs ! i))) (Finite (of_int (ys ! i)))))
           (Finite 0) [0..<n]
         = Finite (of_int (\<Sum>i<n. xs ! i * ys ! i))"
  using small
proof (induction n)
  case 0
  show ?case by simp
next
  case (Suc n)
  let ?t = "xs ! n * ys ! n"
  let ?s = "\<Sum>i<n. xs ! i * ys ! i"
  have nonneg: "0 \<le> (\<Sum>i<n. \<bar>xs ! i * ys ! i\<bar>)" by (rule sum_nonneg) simp
  from Suc.prems have tot: "(\<Sum>i<n. \<bar>xs ! i * ys ! i\<bar>) + \<bar>?t\<bar> < 2 ^ p" by simp
  then have prev: "(\<Sum>i<n. \<bar>xs ! i * ys ! i\<bar>) < 2 ^ p" by linarith
  have t: "\<bar>?t\<bar> < 2 ^ p" using tot nonneg by linarith
  have "\<bar>?s\<bar> \<le> (\<Sum>i<n. \<bar>xs ! i * ys ! i\<bar>)" by (rule sum_abs)
  then have st: "\<bar>?s + ?t\<bar> < 2 ^ p" using tot by linarith
  have mul: "fp_mul (fround p (- int k)) mx (Finite (of_int (xs ! n))) (Finite (of_int (ys ! n)))
      = Finite (of_int ?t)"
  proof -
    have "fround p (- int k) (of_int (xs ! n) * of_int (ys ! n)) = of_int ?t"
      using fround_exact [OF t p, of k] by simp
    then show ?thesis using fp_result_small [OF mx t] by simp
  qed
  have add: "fp_add (fround p (- int k)) mx (Finite (of_int ?s)) (Finite (of_int ?t))
      = Finite (of_int (?s + ?t))"
  proof -
    have "fround p (- int k) (of_int ?s + of_int ?t) = of_int (?s + ?t)"
      using fround_exact [OF st p, of k] by simp
    then show ?thesis using fp_result_small [OF mx st] by simp
  qed
  let ?f = "\<lambda>acc i. fp_add (fround p (- int k)) mx acc
                    (fp_mul (fround p (- int k)) mx
                       (Finite (of_int (xs ! i))) (Finite (of_int (ys ! i))))"
  have "foldl ?f (Finite 0) [0..<Suc n] = ?f (foldl ?f (Finite 0) [0..<n]) n"
    by (simp del: fp_mul.simps fp_add.simps)
  also have "\<dots> = ?f (Finite (of_int ?s)) n" by (simp only: Suc.IH [OF prev])
  also have "\<dots> = Finite (of_int (?s + ?t))" by (simp only: mul add)
  also have "?s + ?t = (\<Sum>i<Suc n. xs ! i * ys ! i)" by simp
  finally show ?case .
qed

lemma f32_round_fround: "f32_round = fround 24 (- int 126)"
  by (rule ext) (simp add: f32_round_def)

lemma f64_round_fround: "f64_round = fround 53 (- int 1022)"
  by (rule ext) (simp add: f64_round_def)

lemma FLT_MAX_large: "2 ^ 24 \<le> FLT_MAX"
  by (simp add: FLT_MAX_def)

lemma DBL_MAX_large: "2 ^ 53 \<le> DBL_MAX"
  by (simp add: DBL_MAX_def)

lemma vectorDotProduct_float_eq:
  assumes "n \<le> length a" "n \<le> length b"
  shows "vectorDotProduct_float a b n =
     Some (foldl (\<lambda>acc i. float_add acc (float_mul (a ! i) (b ! i))) (Finite 0) [0..<n])"
  unfolding vectorDotProduct_float_def by (rule vectorDotProduct_T_eq [OF assms])

lemma vectorDotProduct_double_eq:
  assumes "n \<le> length a" "n \<le> length b"
  shows "vectorDotProduct_double a b n =
     Some (foldl (\<lambda>acc i. double_add acc (double_mul (a ! i) (b ! i))) (Finite 0) [0..<n])"
  unfolding vectorDotProduct_double_def by (rule vectorDotProduct_T_eq [OF assms])

lemma vectorDotProduct_float_exact:
  fixes xs ys :: "int list"
  assumes "n \<le> length xs" "n \<le> length ys" "(\<Sum>i<n. \<bar>xs ! i * ys ! i\<bar>) < 2 ^ 24"
  shows "vectorDotProduct_float (map (\<lambda>k. Finite (of_int k)) xs)
            (map (\<lambda>k. Finite (of_int k)) ys) n
         = Some (Finite (of_int (\<Sum>i<n. xs ! i * ys ! i)))"
proof -
  let ?a = "map (\<lambda>k. Finite (of_int k)) xs" and ?b = "map (\<lambda>k. Finite (of_int k)) ys"
  have l: "n \<le> length ?a" "n \<le> length ?b" using assms by simp_all
  have "foldl (\<lambda>acc i. float_add acc (float_mul (?a ! i) (?b ! i))) (Finite 0) [0..<n] =
        foldl (\<lambda>acc i. fp_add (fround 24 (- int 126)) FLT_MAX acc
                    (fp_mul (fround 24 (- int 126)) FLT_MAX
                       (Finite (of_int (xs ! i))) (Finite (of_int (ys ! i)))))
           (Finite 0) [0..<n]"
    using assms(1,2)
    by (intro foldl_cong refl) (simp_all add: float_add_def float_mul_def f32_round_fround)
  also have "\<dots> = Finite (of_int (\<Sum>i<n. xs ! i * ys ! i))"
    by (rule fp_exact_accumulate [OF _ FLT_MAX_large assms(3)]) simp
  finally show ?thesis by (simp only: vectorDotProduct_float_eq [OF l])
qed

lemma vectorDotProduct_double_exact:
  fixes xs ys :: "int list"
  assumes "n \<le> length xs" "n \<le> length ys" "(\<Sum>i<n. \<bar>xs ! i * ys ! i\<bar>) < 2 ^ 53"
  shows "vectorDotProduct_double (map (\<lambda>k. Finite (of_int k)) xs)
            (map (\<lambda>k. Finite (of_int k)) ys) n
         = Some (Finite (of_int (\<Sum>i<n. xs ! i * ys ! i)))"
proof -
  let ?a = "map (\<lambda>k. Finite (of_int k)) xs" and ?b = "map (\<lambda>k. Finite (of_int k)) ys"
  have l: "n \<le> length ?a" "n \<le> length ?b" using assms by simp_all
  have "foldl (\<lambda>acc i. double_add acc (double_mul (?a ! i) (?b ! i))) (Finite 0) [0..<n] =
        foldl (\<lambda>acc i. fp_add (fround 53 (- int 1022)) DBL_MAX acc
                    (fp_mul (fround 53 (- int 1022)) DBL_MAX
                       (Finite (of_int (xs ! i))) (Finite (of_int (ys ! i)))))
           (Finite 0) [0..<n]"
    using assms(1,2)
    by (intro foldl_cong refl) (simp_all add: double_add_def double_mul_def f64_round_fround)
  also have "\<dots> = Finite (of_int (\<Sum>i<n. xs ! i * ys ! i))"
    by (rule fp_exact_accumulate [OF _ DBL_MAX_large assms(3)]) simp
  finally show ?thesis by (simp only: vectorDotProduct_double_eq [OF l])
qed

lemma generate_batch_length:
  "length (fst (generate_batch gen n k s)) = k"
  by (induction k arbitrary: s) (simp_all add: Let_def split_beta)

lemma generate_batch_vectors:
  assumes "\<And>s. length (fst (gen n s)) = n"
  shows "v \<in> set (fst (generate_batch gen n k s)) \<Longrightarrow> length v = n"
  by (induction k arbitrary: s) (auto simp: Let_def split_beta assms)

lemma output_fold:
  assumes "\<forall>p \<in> set ps. fst p < length A \<and> snd p < length B \<and> idx (fst p) (snd p) < length C"
    and "\<forall>p \<in> set ps. dot (A ! fst p) (B ! snd p) n = Some (val p)"
    and "inj_on (\<lambda>p. idx (fst p) (snd p)) (set ps)"
    and "distinct ps"
  shows "\<exists>C'. fold (DotProduct_output_step dot idx A B n) ps (Some C) = Some C' \<and>
           length C' = length C \<and>
           (\<forall>p \<in> set ps. C' ! idx (fst p) (snd p) = Some (val p)) \<and>
           (\<forall>r. r \<notin> (\<lambda>p. idx (fst p) (snd p)) ` set ps \<longrightarrow> C' ! r = C ! r)"
  using assms
proof (induction ps arbitrary: C)
  case Nil
  then show ?case by simp
next
  case (Cons p ps)
  let ?r = "idx (fst p) (snd p)"
  let ?C1 = "C[?r := Some (val p)]"
  have p: "fst p < length A" "snd p < length B" "?r < length C"
    and d: "dot (A ! fst p) (B ! snd p) n = Some (val p)"
    using Cons.prems(1,2) by simp_all
  have step: "DotProduct_output_step dot idx A B n p (Some C) = Some ?C1"
    using p d by (simp add: DotProduct_output_step_def Let_def)
  have 1: "\<forall>q \<in> set ps. fst q < length A \<and> snd q < length B \<and> idx (fst q) (snd q) < length ?C1"
    using Cons.prems(1) by simp
  have 2: "\<forall>q \<in> set ps. dot (A ! fst q) (B ! snd q) n = Some (val q)"
    using Cons.prems(2) by simp
  have 3: "inj_on (\<lambda>p. idx (fst p) (snd p)) (set ps)"
    using Cons.prems(3) by (simp add: inj_on_def)
  have 4: "distinct ps" using Cons.prems(4) by simp
  from Cons.IH [OF 1 2 3 4] obtain C' where
    run: "fold (DotProduct_output_step dot idx A B n) ps (Some ?C1) = Some C'"
    and len: "length C' = length ?C1"
    and new: "\<forall>q \<in> set ps. C' ! idx (fst q) (snd q) = Some (val q)"
    and old: "\<forall>r. r \<notin> (\<lambda>p. idx (fst p) (snd p)) ` set ps \<longrightarrow> C' ! r = ?C1 ! r"
    by blast
  have notin: "?r \<notin> (\<lambda>p. idx (fst p) (snd p)) ` set ps"
  proof
    assume "?r \<in> (\<lambda>p. idx (fst p) (snd p)) ` set ps"
    then obtain q where q: "q \<in> set ps" "idx (fst q) (snd q) = ?r" by auto
    with Cons.prems(3) have "q = p" by (auto simp: inj_on_def)
    with q(1) Cons.prems(4) show False by simp
  qed
  have atp: "C' ! ?r = Some (val p)" using old notin p(3) by simp
  show ?case
  proof (intro exI conjI)
    show "fold (DotProduct_output_step dot idx A B n) (p # ps) (Some C) = Some C'"
      using step run by simp
    show "length C' = length C" using len by simp
    show "\<forall>q \<in> set (p # ps). C' ! idx (fst q) (snd q) = Some (val q)"
      using new atp by simp
    show "\<forall>r. r \<notin> (\<lambda>p. idx (fst p) (snd p)) ` set (p # ps) \<longrightarrow> C' ! r = C ! r"
    proof (intro allI impI)
      fix r assume r: "r \<notin> (\<lambda>p. idx (fst p) (snd p)) ` set (p # ps)"
      then have "r \<noteq> ?r" and "r \<notin> (\<lambda>p. idx (fst p) (snd p)) ` set ps" by auto
      then show "C' ! r = C ! r" using old by simp
    qed
  qed
qed

lemma row_major_range: "a_i < m \<Longrightarrow> b_i < n \<Longrightarrow> row_major n a_i b_i < m * n"
proof -
  assume a: "a_i < m" and b: "b_i < n"
  have "a_i * n + b_i < a_i * n + n" using b by simp
  also have "\<dots> = Suc a_i * n" by simp
  also have "\<dots> \<le> m * n" using a by (intro mult_le_mono1) simp
  finally show ?thesis by (simp add: row_major_def)
qed

lemma row_major_inj:
  assumes "b_i < n" "b_j < n" "row_major n a_i b_i = row_major n a_j b_j"
  shows "a_i = a_j \<and> b_i = b_j"
proof -
  from assms(3) have e: "a_i * n + b_i = a_j * n + b_j" by (simp add: row_major_def)
  have "(a_i * n + b_i) div n = a_i" "(a_j * n + b_j) div n = a_j"
    using assms(1,2) by simp_all
  with e have "a_i = a_j" by metis
  with e show ?thesis by simp
qed

lemma DataGenerator_init_batch:
  fixes op_add :: "'a \<Rightarrow> 'a \<Rightarrow> 'a" and gen :: "nat \<Rightarrow> 'rng \<Rightarrow> 'a list \<times> 'rng"
  assumes fit: "unat ba * unat bb < 2 ^ 64"
    and gen: "\<forall>s. length (fst (gen vector_size s)) = vector_size"
    and rng: "\<forall>a_i < unat ba. \<forall>b_i < unat bb. idx a_i b_i < unat ba * unat bb"
    and inj: "\<forall>a_i < unat ba. \<forall>b_i < unat bb. \<forall>a_j < unat ba. \<forall>b_j < unat bb.
                idx a_i b_i = idx a_j b_j \<longrightarrow> a_i = a_j \<and> b_i = b_j"
  shows "\<exists>A B C m_rand'.
      DotProduct_DataGenerator_init (vectorDotProduct_T op_add op_mul zero) gen idx
          vector_size ba bb m_rand = ((A, B, Some C), m_rand') \<and>
      length A = unat ba \<and> length B = unat bb \<and> length C = unat ba * unat bb \<and>
      (\<forall>a_i < unat ba. length (A ! a_i) = vector_size) \<and>
      (\<forall>b_i < unat bb. length (B ! b_i) = vector_size) \<and>
      (\<forall>a_i < unat ba. \<forall>b_i < unat bb.
          C ! idx a_i b_i =
            vectorDotProduct_T op_add op_mul zero (A ! a_i) (B ! b_i) vector_size \<and>
          C ! idx a_i b_i =
            Some (foldl (\<lambda>acc i. op_add acc (op_mul (A ! a_i ! i) (B ! b_i ! i))) zero
                    [0..<vector_size])) \<and>
      (\<forall>r < length C. \<exists>a_i < unat ba. \<exists>b_i < unat bb. r = idx a_i b_i \<and>
          (\<forall>a_j < unat ba. \<forall>b_j < unat bb. r = idx a_j b_j \<longrightarrow> a_j = a_i \<and> b_j = b_i))"
proof -
  let ?dot = "vectorDotProduct_T op_add op_mul zero"
  let ?gA = "generate_batch gen vector_size (unat ba) m_rand"
  let ?A = "fst ?gA"
  let ?gB = "generate_batch gen vector_size (unat bb) (snd ?gA)"
  let ?B = "fst ?gB"
  let ?ps = "List.product [0..<unat ba] [0..<unat bb]"
  let ?C0 = "replicate (unat (ba * bb)) (None :: 'a option)"
  let ?val = "\<lambda>p. foldl (\<lambda>acc i. op_add acc (op_mul (?A ! fst p ! i) (?B ! snd p ! i))) zero
                    [0..<vector_size]"
  have prod: "unat (ba * bb) = unat ba * unat bb"
    using fit by (simp add: unat_word_ariths)
  have lA: "length ?A = unat ba" and lB: "length ?B = unat bb"
    by (rule generate_batch_length)+
  have vA: "\<And>i. i < unat ba \<Longrightarrow> length (?A ! i) = vector_size"
    using generate_batch_vectors [of gen vector_size _ "unat ba" m_rand] gen lA
    by (metis nth_mem)
  have vB: "\<And>i. i < unat bb \<Longrightarrow> length (?B ! i) = vector_size"
    using generate_batch_vectors [of gen vector_size _ "unat bb" "snd ?gA"] gen lB
    by (metis nth_mem)
  have mem: "\<And>p. p \<in> set ?ps \<longleftrightarrow> fst p < unat ba \<and> snd p < unat bb"
    by (auto simp: mem_Times_iff)
  have dot: "\<And>a_i b_i. a_i < unat ba \<Longrightarrow> b_i < unat bb \<Longrightarrow>
      ?dot (?A ! a_i) (?B ! b_i) vector_size = Some (?val (a_i, b_i))"
  proof -
    fix a_i b_i assume "a_i < unat ba" "b_i < unat bb"
    then have "vector_size \<le> length (?A ! a_i)" "vector_size \<le> length (?B ! b_i)"
      by (simp_all add: vA vB)
    then show "?dot (?A ! a_i) (?B ! b_i) vector_size = Some (?val (a_i, b_i))"
      by (simp only: vectorDotProduct_T_eq fst_conv snd_conv)
  qed
  have 1: "\<forall>p \<in> set ?ps. fst p < length ?A \<and> snd p < length ?B \<and>
             idx (fst p) (snd p) < length ?C0"
    using rng by (simp add: mem lA lB prod del: set_product)
  have 2: "\<forall>p \<in> set ?ps. ?dot (?A ! fst p) (?B ! snd p) vector_size = Some (?val p)"
  proof
    fix p assume "p \<in> set ?ps"
    then have "fst p < unat ba" "snd p < unat bb" by (simp_all add: mem del: set_product)
    then show "?dot (?A ! fst p) (?B ! snd p) vector_size = Some (?val p)"
      using dot [of "fst p" "snd p"] by simp
  qed
  have 3: "inj_on (\<lambda>p. idx (fst p) (snd p)) (set ?ps)"
  proof (rule inj_onI)
    fix p q assume p: "p \<in> set ?ps" and q: "q \<in> set ?ps"
      and e: "idx (fst p) (snd p) = idx (fst q) (snd q)"
    from p q have "fst p < unat ba" "snd p < unat bb" "fst q < unat ba" "snd q < unat bb"
      by (simp_all add: mem del: set_product)
    with inj e have "fst p = fst q \<and> snd p = snd q" by blast
    then show "p = q" by (simp add: prod_eq_iff)
  qed
  have 4: "distinct ?ps" by (simp add: distinct_product)
  from output_fold [of ?ps ?A ?B idx ?C0 ?dot vector_size ?val, OF 1 2 3 4]
  obtain C where run: "fold (DotProduct_output_step ?dot idx ?A ?B vector_size) ?ps (Some ?C0) = Some C"
    and len: "length C = length ?C0"
    and new: "\<forall>p \<in> set ?ps. C ! idx (fst p) (snd p) = Some (?val p)"
    by blast
  have init: "DotProduct_DataGenerator_init ?dot gen idx vector_size ba bb m_rand =
      ((?A, ?B, Some C), snd ?gB)"
    by (simp add: DotProduct_DataGenerator_init_def Let_def split_beta run)
  have lenC: "length C = unat ba * unat bb" using len prod by simp
  have vals: "\<forall>a_i < unat ba. \<forall>b_i < unat bb.
      C ! idx a_i b_i = ?dot (?A ! a_i) (?B ! b_i) vector_size \<and>
      C ! idx a_i b_i = Some (?val (a_i, b_i))"
  proof (intro allI impI)
    fix a_i b_i assume r: "a_i < unat ba" "b_i < unat bb"
    then have "(a_i, b_i) \<in> set ?ps" by (simp add: mem del: set_product)
    with new have "C ! idx a_i b_i = Some (?val (a_i, b_i))" by fastforce
    then show "C ! idx a_i b_i = ?dot (?A ! a_i) (?B ! b_i) vector_size \<and>
      C ! idx a_i b_i = Some (?val (a_i, b_i))"
      using dot [OF r] by simp
  qed
  have surj: "\<forall>r < length C. \<exists>a_i < unat ba. \<exists>b_i < unat bb. r = idx a_i b_i \<and>
          (\<forall>a_j < unat ba. \<forall>b_j < unat bb. r = idx a_j b_j \<longrightarrow> a_j = a_i \<and> b_j = b_i)"
  proof -
    let ?I = "(\<lambda>p. idx (fst p) (snd p)) ` set ?ps"
    have "card ?I = card (set ?ps)" using 3 by (rule card_image)
    also have "\<dots> = unat ba * unat bb" using 4 by (simp add: distinct_card)
    finally have c: "card ?I = unat ba * unat bb" .
    have sub: "?I \<subseteq> {..<unat ba * unat bb}"
    proof
      fix r assume "r \<in> ?I"
      then obtain p where "p \<in> set ?ps" "r = idx (fst p) (snd p)" by blast
      then show "r \<in> {..<unat ba * unat bb}" using rng by (simp add: mem del: set_product)
    qed
    have fin: "finite {..<unat ba * unat bb}" by simp
    have "card ?I = card {..<unat ba * unat bb}" by (simp only: c card_lessThan)
    with card_subset_eq [OF fin sub] have "?I = {..<unat ba * unat bb}" .
    then have all: "\<forall>r < unat ba * unat bb. r \<in> ?I" by blast
    show ?thesis
    proof (intro allI impI)
      fix r assume "r < length C"
      then have "r \<in> ?I" using all lenC by simp
      then obtain p where p: "p \<in> set ?ps" and r: "r = idx (fst p) (snd p)" by blast
      from p have b: "fst p < unat ba" "snd p < unat bb" by (simp_all add: mem del: set_product)
      have "\<forall>a_j < unat ba. \<forall>b_j < unat bb. r = idx a_j b_j \<longrightarrow> a_j = fst p \<and> b_j = snd p"
        using inj b r by metis
      with b r show "\<exists>a_i < unat ba. \<exists>b_i < unat bb. r = idx a_i b_i \<and>
          (\<forall>a_j < unat ba. \<forall>b_j < unat bb. r = idx a_j b_j \<longrightarrow> a_j = a_i \<and> b_j = b_i)"
        by blast
    qed
  qed
  have sA: "\<forall>a_i < unat ba. length (?A ! a_i) = vector_size" using vA by blast
  have sB: "\<forall>b_i < unat bb. length (?B ! b_i) = vector_size" using vB by blast
  show ?thesis
  proof (intro exI conjI)
    show "DotProduct_DataGenerator_init ?dot gen idx vector_size ba bb m_rand =
      ((?A, ?B, Some C), snd ?gB)" by (rule init)
    show "length ?A = unat ba" by (rule lA)
    show "length ?B = unat bb" by (rule lB)
    show "length C = unat ba * unat bb" by (rule lenC)
    show "\<forall>a_i < unat ba. length (?A ! a_i) = vector_size" by (rule sA)
    show "\<forall>b_i < unat bb. length (?B ! b_i) = vector_size" by (rule sB)
    show "\<forall>a_i < unat ba. \<forall>b_i < unat bb.
          C ! idx a_i b_i = ?dot (?A ! a_i) (?B ! b_i) vector_size \<and>
          C ! idx a_i b_i =
            Some (foldl (\<lambda>acc i. op_add acc (op_mul (?A ! a_i ! i) (?B ! b_i ! i))) zero
                    [0..<vector_size])"
      using vals by (simp only: fst_conv snd_conv)
    show "\<forall>r < length C. \<exists>a_i < unat ba. \<exists>b_i < unat bb. r = idx a_i b_i \<and>
          (\<forall>a_j < unat ba. \<forall>b_j < unat bb. r = idx a_j b_j \<longrightarrow> a_j = a_i \<and> b_j = b_i)"
      by (rule surj)
  qed
qed

lemma output_fold_None:
  "fold (DotProduct_output_step dot idx A B n) ps None = None"
  by (induction ps) (simp_all add: DotProduct_output_step_def)

lemma DataGenerator_init_wrapped:
  assumes "unat (ba * bb) = 0" "0 < unat ba" "0 < unat bb"
  shows "snd (snd (fst (DotProduct_DataGenerator_init dot gen idx vector_size ba bb m_rand)))
         = None"
proof -
  obtain a where a: "unat ba = Suc a" using assms(2) by (cases "unat ba") simp_all
  obtain b where b: "unat bb = Suc b" using assms(3) by (cases "unat bb") simp_all
  have "[0..<unat ba] = 0 # [1..<unat ba]" "[0..<unat bb] = 0 # [1..<unat bb]"
    using assms(2,3) by (simp_all add: upt_conv_Cons)
  then obtain ps where ps: "List.product [0..<unat ba] [0..<unat bb] = (0, 0) # ps"
    by simp
  have step: "\<And>A B. DotProduct_output_step dot idx A B vector_size (0, 0) (Some []) = None"
    by (simp add: DotProduct_output_step_def)
  have C: "\<And>A B. fold (DotProduct_output_step dot idx A B vector_size)
              (List.product [0..<unat ba] [0..<unat bb])
              (Some (replicate (unat (ba * bb)) None)) = None"
    unfolding ps assms(1) by (simp add: step output_fold_None)
  show ?thesis
    by (simp add: DotProduct_DataGenerator_init_def Let_def split_beta C)
qed

text \<open>
  The size of the result pack is the \<open>std::uint64_t\<close> product of the two
  input batch sizes and wraps around: for the batch sizes \<open>2 ^ 32\<close> and
  \<open>2 ^ 32\<close> there are \<open>2 ^ 64\<close> pairs of input samples, the result pack
  is allocated with 0 buffers, and the first expected value is written outside the
  pack, so that the pack does not hold one expected value for each pair.
\<close>

theorem DataGenerator_init_wrapped_counterexample:
  "snd (snd (fst (DotProduct_DataGenerator_init vectorDotProduct_double lcg_vector
                    (row_major 4294967296) 4 4294967296 4294967296 1))) = None \<and>
   unat (4294967296 * 4294967296 :: 64 word) = 0 \<and>
   unat (4294967296 :: 64 word) * unat (4294967296 :: 64 word) = 18446744073709551616"
proof -
  have w: "unat (4294967296 * 4294967296 :: 64 word) = 0" by simp
  have p: "0 < unat (4294967296 :: 64 word)" by simp
  from DataGenerator_init_wrapped [OF w p p] w show ?thesis by simp
qed

lemma foldl_plus_sum:
  "foldl (\<lambda>acc i. acc + f i) z [0..<n] = z + (\<Sum>i<n. f i :: 'a :: comm_monoid_add)"
  by (induction n) (simp_all add: add.assoc)

lemma word_sum_of_int:
  "(\<Sum>i<n. (a ! i) * (b ! i) :: 'a :: len word) = word_of_int (\<Sum>i<n. sint (a ! i) * sint (b ! i))"
  by (simp add: of_int_sum)

lemma vectorDotProduct_int32_eq:
  assumes "n \<le> length a" "n \<le> length b"
  shows "vectorDotProduct_int32 a b n = Some (word_of_int (\<Sum>i<n. sint (a ! i) * sint (b ! i)))"
proof -
  have "vectorDotProduct_int32 a b n = Some (0 + (\<Sum>i<n. (a ! i) * (b ! i)))"
    unfolding vectorDotProduct_int32_def vectorDotProduct_T_eq [OF assms] foldl_plus_sum ..
  then show ?thesis by (simp only: word_sum_of_int add_0_left)
qed

lemma vectorDotProduct_int64_eq:
  assumes "n \<le> length a" "n \<le> length b"
  shows "vectorDotProduct_int64 a b n = Some (word_of_int (\<Sum>i<n. sint (a ! i) * sint (b ! i)))"
proof -
  have "vectorDotProduct_int64 a b n = Some (0 + (\<Sum>i<n. (a ! i) * (b ! i)))"
    unfolding vectorDotProduct_int64_def vectorDotProduct_T_eq [OF assms] foldl_plus_sum ..
  then show ?thesis by (simp only: word_sum_of_int add_0_left)
qed

lemma dot_example:
  "vectorDotProduct_double [Finite 1, Finite 2, Finite 3, Finite 4]
      [Finite 5, Finite 6, Finite 7, Finite 8] 4 = Some (Finite 70)"
proof -
  have s4: "{..<4::nat} = {0, 1, 2, 3}" by auto
  have e: "(\<Sum>i<4. \<bar>[1, 2, 3, 4 :: int] ! i * [5, 6, 7, 8] ! i\<bar>) = 70"
    "(\<Sum>i<4. [1, 2, 3, 4 :: int] ! i * [5, 6, 7, 8] ! i) = 70"
    unfolding s4 by simp_all
  have "vectorDotProduct_double (map (\<lambda>k. Finite (of_int k)) [1, 2, 3, 4])
      (map (\<lambda>k. Finite (of_int k)) [5, 6, 7, 8]) 4
      = Some (Finite (of_int (\<Sum>i<4. [1, 2, 3, 4 :: int] ! i * [5, 6, 7, 8] ! i)))"
    by (rule vectorDotProduct_double_exact) (simp_all only: e, simp_all)
  then show ?thesis unfolding e by simp
qed

lemma dot_overflow_example:
  "vectorDotProduct_float [Finite (f32_round (3 * 10 ^ 38)), Finite (f32_round (3 * 10 ^ 38))]
      [Finite 1, Finite 1] 2 = Some PlusInfinity"
  by code_simp

lemma dot_rounding_example:
  "vectorDotProduct_float [Finite 16777216, Finite 1] [Finite 1, Finite 1] 2 =
     Some (Finite 16777216) \<and>
   vectorDotProduct_float [Finite 16777216, Finite 3] [Finite 1, Finite 1] 2 =
     Some (Finite 16777220)"
  by code_simp

text \<open>
  Claim C6, amended. For vectors of at least \<open>n\<close> elements and each of the four
  data types, the ground truth of the dot product is the inner product of the
  first \<open>n\<close> elements accumulated from left to right in that type, from the
  zero of the type. For \<open>int32\<close> and \<open>int64\<close> it is the exact inner product
  of the signed values wrapped around into the type. For \<open>float\<close> and
  \<open>double\<close> every multiplication and every addition is the IEEE 754 operation
  of the format: rounded to nearest, ties to even, a result beyond the largest
  finite number an infinity, an invalid operation NaN. So for vectors of integers
  whose products have absolute values summing to less than \<open>2 ^ 24\<close>
  (\<open>float\<close>) or \<open>2 ^ 53\<close> (\<open>double\<close>) the ground truth is the exact inner
  product; for the \<open>double\<close> inputs \<open>[1,2,3,4]\<close> and \<open>[5,6,7,8]\<close> it is
  exactly 70; for the \<open>float\<close> inputs \<open>[3e38, 3e38]\<close> and \<open>[1, 1]\<close> it is
  \<open>+infinity\<close>; and for the \<open>float\<close> inputs \<open>[2 ^ 24, 1]\<close> and
  \<open>[1, 1]\<close> it is \<open>2 ^ 24\<close>, for \<open>[2 ^ 24, 3]\<close> and \<open>[1, 1]\<close> it is
  \<open>2 ^ 24 + 4\<close>. With the input batch sizes \<open>batch_a\<close> and \<open>batch_b\<close>
  whose product is below \<open>2 ^ 64\<close>, a generator that fills \<open>vector_size\<close>
  elements of a buffer, and a result index that maps the pairs of sample indices
  one-to-one into the result pack: the generator returns, there are \<open>batch_a\<close>
  and \<open>batch_b\<close> input samples of \<open>vector_size\<close> elements each, the result
  pack holds \<open>batch_a * batch_b\<close> expected values, the one at the index of a
  pair being the inner product of the \<open>vector_size\<close> elements of the two
  samples of the pair, and every buffer of the pack belongs to exactly one pair.
\<close>

theorem DotProduct_ground_truth:
  fixes a32 b32 :: "32 word list" and a64 b64 :: "64 word list"
    and af bf ad bd :: "fp_value list" and xs ys :: "int list"
    and op_add :: "'a \<Rightarrow> 'a \<Rightarrow> 'a" and gen :: "nat \<Rightarrow> 'rng \<Rightarrow> 'a list \<times> 'rng"
  shows
  "(n \<le> length a32 \<and> n \<le> length b32 \<longrightarrow>
      vectorDotProduct_int32 a32 b32 n =
        Some (word_of_int (\<Sum>i<n. sint (a32 ! i) * sint (b32 ! i)))) \<and>
   (n \<le> length a64 \<and> n \<le> length b64 \<longrightarrow>
      vectorDotProduct_int64 a64 b64 n =
        Some (word_of_int (\<Sum>i<n. sint (a64 ! i) * sint (b64 ! i)))) \<and>
   (n \<le> length af \<and> n \<le> length bf \<longrightarrow>
      vectorDotProduct_float af bf n =
        Some (foldl (\<lambda>acc i. float_add acc (float_mul (af ! i) (bf ! i))) (Finite 0) [0..<n])) \<and>
   (n \<le> length ad \<and> n \<le> length bd \<longrightarrow>
      vectorDotProduct_double ad bd n =
        Some (foldl (\<lambda>acc i. double_add acc (double_mul (ad ! i) (bd ! i))) (Finite 0) [0..<n])) \<and>
   (n \<le> length xs \<and> n \<le> length ys \<and> (\<Sum>i<n. \<bar>xs ! i * ys ! i\<bar>) < 2 ^ 24 \<longrightarrow>
      vectorDotProduct_float (map (\<lambda>k. Finite (of_int k)) xs)
          (map (\<lambda>k. Finite (of_int k)) ys) n
        = Some (Finite (of_int (\<Sum>i<n. xs ! i * ys ! i)))) \<and>
   (n \<le> length xs \<and> n \<le> length ys \<and> (\<Sum>i<n. \<bar>xs ! i * ys ! i\<bar>) < 2 ^ 53 \<longrightarrow>
      vectorDotProduct_double (map (\<lambda>k. Finite (of_int k)) xs)
          (map (\<lambda>k. Finite (of_int k)) ys) n
        = Some (Finite (of_int (\<Sum>i<n. xs ! i * ys ! i)))) \<and>
   vectorDotProduct_double [Finite 1, Finite 2, Finite 3, Finite 4]
      [Finite 5, Finite 6, Finite 7, Finite 8] 4 = Some (Finite 70) \<and>
   vectorDotProduct_float [Finite (f32_round (3 * 10 ^ 38)), Finite (f32_round (3 * 10 ^ 38))]
      [Finite 1, Finite 1] 2 = Some PlusInfinity \<and>
   vectorDotProduct_float [Finite 16777216, Finite 1] [Finite 1, Finite 1] 2 =
     Some (Finite 16777216) \<and>
   vectorDotProduct_float [Finite 16777216, Finite 3] [Finite 1, Finite 1] 2 =
     Some (Finite 16777220) \<and>
   (unat batch_a * unat batch_b < 2 ^ 64 \<and>
    (\<forall>s. length (fst (gen vector_size s)) = vector_size) \<and>
    (\<forall>a_i < unat batch_a. \<forall>b_i < unat batch_b.
        getResultIndex a_i b_i < unat batch_a * unat batch_b) \<and>
    (\<forall>a_i < unat batch_a. \<forall>b_i < unat batch_b. \<forall>a_j < unat batch_a. \<forall>b_j < unat batch_b.
        getResultIndex a_i b_i = getResultIndex a_j b_j \<longrightarrow> a_i = a_j \<and> b_i = b_j) \<longrightarrow>
    (\<exists>A B C m_rand'.
      DotProduct_DataGenerator_init (vectorDotProduct_T op_add op_mul zero) gen getResultIndex
          vector_size batch_a batch_b m_rand = ((A, B, Some C), m_rand') \<and>
      length A = unat batch_a \<and> length B = unat batch_b \<and>
      length C = unat batch_a * unat batch_b \<and>
      (\<forall>a_i < unat batch_a. length (A ! a_i) = vector_size) \<and>
      (\<forall>b_i < unat batch_b. length (B ! b_i) = vector_size) \<and>
      (\<forall>a_i < unat batch_a. \<forall>b_i < unat batch_b.
          C ! getResultIndex a_i b_i =
            vectorDotProduct_T op_add op_mul zero (A ! a_i) (B ! b_i) vector_size \<and>
          C ! getResultIndex a_i b_i =
            Some (foldl (\<lambda>acc i. op_add acc (op_mul (A ! a_i ! i) (B ! b_i ! i))) zero
                    [0..<vector_size])) \<and>
      (\<forall>r < length C. \<exists>a_i < unat batch_a. \<exists>b_i < unat batch_b. r = getResultIndex a_i b_i \<and>
          (\<forall>a_j < unat batch_a. \<forall>b_j < unat batch_b.
              r = getResultIndex a_j b_j \<longrightarrow> a_j = a_i \<and> b_j = b_i))))"
proof (intro conjI impI)
  assume "n \<le> length a32 \<and> n \<le> length b32"
  then show "vectorDotProduct_int32 a32 b32 n =
        Some (word_of_int (\<Sum>i<n. sint (a32 ! i) * sint (b32 ! i)))"
    by (simp add: vectorDotProduct_int32_eq)
next
  assume "n \<le> length a64 \<and> n \<le> length b64"
  then show "vectorDotProduct_int64 a64 b64 n =
        Some (word_of_int (\<Sum>i<n. sint (a64 ! i) * sint (b64 ! i)))"
    by (simp add: vectorDotProduct_int64_eq)
next
  assume "n \<le> length af \<and> n \<le> length bf"
  then show "vectorDotProduct_float af bf n =
        Some (foldl (\<lambda>acc i. float_add acc (float_mul (af ! i) (bf ! i))) (Finite 0) [0..<n])"
    by (simp add: vectorDotProduct_float_eq)
next
  assume "n \<le> length ad \<and> n \<le> length bd"
  then show "vectorDotProduct_double ad bd n =
        Some (foldl (\<lambda>acc i. double_add acc (double_mul (ad ! i) (bd ! i))) (Finite 0) [0..<n])"
    by (simp add: vectorDotProduct_double_eq)
next
  assume "n \<le> length xs \<and> n \<le> length ys \<and> (\<Sum>i<n. \<bar>xs ! i * ys ! i\<bar>) < 2 ^ 24"
  then show "vectorDotProduct_float (map (\<lambda>k. Finite (of_int k)) xs)
          (map (\<lambda>k. Finite (of_int k)) ys) n
        = Some (Finite (of_int (\<Sum>i<n. xs ! i * ys ! i)))"
    by (intro vectorDotProduct_float_exact) simp_all
next
  assume "n \<le> length xs \<and> n \<le> length ys \<and> (\<Sum>i<n. \<bar>xs ! i * ys ! i\<bar>) < 2 ^ 53"
  then show "vectorDotProduct_double (map (\<lambda>k. Finite (of_int k)) xs)
          (map (\<lambda>k. Finite (of_int k)) ys) n
        = Some (Finite (of_int (\<Sum>i<n. xs ! i * ys ! i)))"
    by (intro vectorDotProduct_double_exact) simp_all
next
  show "vectorDotProduct_double [Finite 1, Finite 2, Finite 3, Finite 4]
      [Finite 5, Finite 6, Finite 7, Finite 8] 4 = Some (Finite 70)" by (rule dot_example)
next
  show "vectorDotProduct_float [Finite (f32_round (3 * 10 ^ 38)), Finite (f32_round (3 * 10 ^ 38))]
      [Finite 1, Finite 1] 2 = Some PlusInfinity" by (rule dot_overflow_example)
next
  show "vectorDotProduct_float [Finite 16777216, Finite 1] [Finite 1, Finite 1] 2 =
     Some (Finite 16777216)" by (rule dot_rounding_example [THEN conjunct1])
next
  show "vectorDotProduct_float [Finite 16777216, Finite 3] [Finite 1, Finite 1] 2 =
     Some (Finite 16777220)" by (rule dot_rounding_example [THEN conjunct2])
next
  assume h: "unat batch_a * unat batch_b < 2 ^ 64 \<and>
    (\<forall>s. length (fst (gen vector_size s)) = vector_size) \<and>
    (\<forall>a_i < unat batch_a. \<forall>b_i < unat batch_b.
        getResultIndex a_i b_i < unat batch_a * unat batch_b) \<and>
    (\<forall>a_i < unat batch_a. \<forall>b_i < unat batch_b. \<forall>a_j < unat batch_a. \<forall>b_j < unat batch_b.
        getResultIndex a_i b_i = getResultIndex a_j b_j \<longrightarrow> a_i = a_j \<and> b_i = b_j)"
  have h1: "unat batch_a * unat batch_b < 2 ^ 64" using h by (rule conjunct1)
  have h2: "\<forall>s. length (fst (gen vector_size s)) = vector_size"
    using h by (elim conjE)
  have h3: "\<forall>a_i < unat batch_a. \<forall>b_i < unat batch_b.
        getResultIndex a_i b_i < unat batch_a * unat batch_b"
    using h by (elim conjE)
  have h4: "\<forall>a_i < unat batch_a. \<forall>b_i < unat batch_b. \<forall>a_j < unat batch_a. \<forall>b_j < unat batch_b.
        getResultIndex a_i b_i = getResultIndex a_j b_j \<longrightarrow> a_i = a_j \<and> b_i = b_j"
    using h by (elim conjE)
  show "\<exists>A B C m_rand'.
      DotProduct_DataGenerator_init (vectorDotProduct_T op_add op_mul zero) gen getResultIndex
          vector_size batch_a batch_b m_rand = ((A, B, Some C), m_rand') \<and>
      length A = unat batch_a \<and> length B = unat batch_b \<and>
      length C = unat batch_a * unat batch_b \<and>
      (\<forall>a_i < unat batch_a. length (A ! a_i) = vector_size) \<and>
      (\<forall>b_i < unat batch_b. length (B ! b_i) = vector_size) \<and>
      (\<forall>a_i < unat batch_a. \<forall>b_i < unat batch_b.
          C ! getResultIndex a_i b_i =
            vectorDotProduct_T op_add op_mul zero (A ! a_i) (B ! b_i) vector_size \<and>
          C ! getResultIndex a_i b_i =
            Some (foldl (\<lambda>acc i. op_add acc (op_mul (A ! a_i ! i) (B ! b_i ! i))) zero
                    [0..<vector_size])) \<and>
      (\<forall>r < length C. \<exists>a_i < unat batch_a. \<exists>b_i < unat batch_b. r = getResultIndex a_i b_i \<and>
          (\<forall>a_j < unat batch_a. \<forall>b_j < unat batch_b.
              r = getResultIndex a_j b_j \<longrightarrow> a_j = a_i \<and> b_j = b_i))"
    using h1 h2 h3 h4 by (rule DataGenerator_init_batch)
qed

text \<open>
  The theorem at the \<open>int32\<close> vectors \<open>[2147483647, 2]\<close> and \<open>[2, 1]\<close>,
  whose inner product \<open>2 ^ 32\<close> wraps around to 0, at the \<open>float\<close> vectors
  \<open>[1,2,3,4]\<close> and \<open>[5,6,7,8]\<close>, and at a batch of 2 by 3 samples of 4
  elements with the row-major result index.
\<close>

theorem DotProduct_ground_truth_witness:
  "vectorDotProduct_int32 [2147483647, 2] [2, 1] 2 = Some 0 \<and>
   vectorDotProduct_float (map (\<lambda>k. Finite (of_int k)) [1, 2, 3, 4])
      (map (\<lambda>k. Finite (of_int k)) [5, 6, 7, 8]) 4 = Some (Finite 70) \<and>
   (\<exists>A B C m_rand'.
      DotProduct_DataGenerator_init (vectorDotProduct_T double_add double_mul (Finite 0))
          lcg_vector (row_major 3) 4 2 3 1 = ((A, B, Some C), m_rand') \<and>
      length A = 2 \<and> length B = 3 \<and> length C = 6 \<and> length (A ! 1) = 4 \<and> length (B ! 2) = 4 \<and>
      C ! row_major 3 1 2 =
        vectorDotProduct_T double_add double_mul (Finite 0) (A ! 1) (B ! 2) 4)"
proof -
  note t = DotProduct_ground_truth [where n = 2 and ?a32.0 = "[2147483647, 2]"
      and ?b32.0 = "[2, 1]" and gen = lcg_vector and vector_size = 4 and batch_a = 2
      and batch_b = 3 and getResultIndex = "row_major 3" and op_add = double_add
      and op_mul = double_mul and zero = "Finite 0" and m_rand = 1]
  note t4 = DotProduct_ground_truth [where n = 4 and xs = "[1, 2, 3, 4]" and ys = "[5, 6, 7, 8]",
      THEN conjunct2, THEN conjunct2, THEN conjunct2, THEN conjunct2, THEN conjunct1]
  have l: "(2::nat) \<le> length [2147483647, 2 :: 32 word] \<and> (2::nat) \<le> length [2, 1 :: 32 word]"
    by simp
  have "vectorDotProduct_int32 [2147483647, 2] [2, 1] 2 =
      Some (word_of_int (\<Sum>i<2. sint ([2147483647, 2 :: 32 word] ! i) * sint ([2, 1 :: 32 word] ! i)))"
    using t [THEN conjunct1] l by (rule mp)
  moreover have "(\<Sum>i<2. sint ([2147483647, 2 :: 32 word] ! i) * sint ([2, 1 :: 32 word] ! i)) = 4294967296"
    by (simp add: lessThan_Suc numeral_2_eq_2)
  ultimately have 1: "vectorDotProduct_int32 [2147483647, 2] [2, 1] 2 = Some 0" by simp
  have s4: "{..<4::nat} = {0, 1, 2, 3}" by auto
  have e: "(\<Sum>i<4. \<bar>[1, 2, 3, 4 :: int] ! i * [5, 6, 7, 8] ! i\<bar>) = 70"
    "(\<Sum>i<4. [1, 2, 3, 4 :: int] ! i * [5, 6, 7, 8] ! i) = 70"
    unfolding s4 by simp_all
  have l4: "(4::nat) \<le> length [1, 2, 3, 4 :: int] \<and> (4::nat) \<le> length [5, 6, 7, 8 :: int] \<and>
      (\<Sum>i<4. \<bar>[1, 2, 3, 4 :: int] ! i * [5, 6, 7, 8] ! i\<bar>) < 2 ^ 24"
    unfolding e by simp
  have 2: "vectorDotProduct_float (map (\<lambda>k. Finite (of_int k)) [1, 2, 3, 4])
      (map (\<lambda>k. Finite (of_int k)) [5, 6, 7, 8]) 4 = Some (Finite 70)"
    using t4 [THEN mp, OF l4] unfolding e by simp
  have u: "unat (2 :: 64 word) = 2" "unat (3 :: 64 word) = 3" by simp_all
  have h1: "unat (2 :: 64 word) * unat (3 :: 64 word) < 2 ^ 64" by simp
  have h2: "\<forall>s. length (fst (lcg_vector 4 s)) = 4" by (simp add: lcg_vector_def)
  have h3: "\<forall>a_i < unat (2 :: 64 word). \<forall>b_i < unat (3 :: 64 word).
        row_major 3 a_i b_i < unat (2 :: 64 word) * unat (3 :: 64 word)"
    unfolding u using row_major_range [of _ 2 _ 3] by blast
  have h4: "\<forall>a_i < unat (2 :: 64 word). \<forall>b_i < unat (3 :: 64 word).
       \<forall>a_j < unat (2 :: 64 word). \<forall>b_j < unat (3 :: 64 word).
        row_major 3 a_i b_i = row_major 3 a_j b_j \<longrightarrow> a_i = a_j \<and> b_i = b_j"
    unfolding u using row_major_inj [of _ 3] by blast
  note h = conjI [OF h1 conjI [OF h2 conjI [OF h3 h4]]]
  from t [THEN conjunct2, THEN conjunct2, THEN conjunct2, THEN conjunct2, THEN conjunct2,
          THEN conjunct2, THEN conjunct2, THEN conjunct2, THEN conjunct2, THEN conjunct2,
          THEN mp, OF h]
  obtain A B C m_rand' where
    i: "DotProduct_DataGenerator_init (vectorDotProduct_T double_add double_mul (Finite 0))
          lcg_vector (row_major 3) 4 2 3 1 = ((A, B, Some C), m_rand')"
    and s: "length A = unat (2 :: 64 word)" "length B = unat (3 :: 64 word)"
       "length C = unat (2 :: 64 word) * unat (3 :: 64 word)"
    and la: "\<forall>a_i < unat (2 :: 64 word). length (A ! a_i) = 4"
    and lb: "\<forall>b_i < unat (3 :: 64 word). length (B ! b_i) = 4"
    and v: "\<forall>a_i < unat (2 :: 64 word). \<forall>b_i < unat (3 :: 64 word).
          C ! row_major 3 a_i b_i =
            vectorDotProduct_T double_add double_mul (Finite 0) (A ! a_i) (B ! b_i) 4 \<and>
          C ! row_major 3 a_i b_i =
            Some (foldl (\<lambda>acc i. double_add acc (double_mul (A ! a_i ! i) (B ! b_i ! i)))
                    (Finite 0) [0..<4])"
    by (elim exE conjE) (rule that)
  have r: "(1::nat) < unat (2 :: 64 word)" "(2::nat) < unat (3 :: 64 word)" by simp_all
  with v have c: "C ! row_major 3 1 2 =
      vectorDotProduct_T double_add double_mul (Finite 0) (A ! 1) (B ! 2) 4"
    by blast
  have s': "length A = 2" "length B = 3" "length C = 6" using s by simp_all
  have s'': "length (A ! 1) = 4" "length (B ! 2) = 4" using la lb r by blast+
  show ?thesis
  proof (intro conjI)
    show "vectorDotProduct_int32 [2147483647, 2] [2, 1] 2 = Some 0" by (rule 1)
    show "vectorDotProduct_float (map (\<lambda>k. Finite (of_int k)) [1, 2, 3, 4])
      (map (\<lambda>k. Finite (of_int k)) [5, 6, 7, 8]) 4 = Some (Finite 70)" by (rule 2)
    show "\<exists>A B C m_rand'.
      DotProduct_DataGenerator_init (vectorDotProduct_T double_add double_mul (Finite 0))
          lcg_vector (row_major 3) 4 2 3 1 = ((A, B, Some C), m_rand') \<and>
      length A = 2 \<and> length B = 3 \<and> length C = 6 \<and> length (A ! 1) = 4 \<and> length (B ! 2) = 4 \<and>
      C ! row_major 3 1 2 =
        vectorDotProduct_T double_add double_mul (Finite 0) (A ! 1) (B ! 2) 4"
      using i s' s'' c by blast
  qed
qed

end
